theory Spec2Isabelle
  imports Main "HOL-Library.List_Lexorder" "HOL-Library.Char_ord"
begin

section \<open>Go library values used by main.go\<close>

subsection \<open>time.Duration and time.Time\<close>

text \<open>
  A \<open>time.Duration\<close> is an int64 count of nanoseconds. A \<open>time.Time\<close> holds the wall
  clock as seconds since January 1, year 1 (an int64) with a nanosecond part, and an
  optional monotonic reading. A clock reading is what \<open>time.Now()\<close> observes: the wall
  clock in nanoseconds since the Unix epoch and the monotonic clock in nanoseconds.
\<close>

definition maxDuration :: int where
  "maxDuration = 2 ^ 63 - 1"

definition minDuration :: int where
  "minDuration = - (2 ^ 63)"

definition Second :: int where
  "Second = 1000000000"

definition Hour :: int where
  "Hour = 3600 * Second"

definition cacheDuration :: int where
  "cacheDuration = 1 * Hour"

definition wrap64 :: "int \<Rightarrow> int" where
  \<comment> \<open>int64 arithmetic: the value modulo 2^64, read as signed\<close>
  "wrap64 x = (x + 2 ^ 63) mod 2 ^ 64 - 2 ^ 63"

definition sat64 :: "int \<Rightarrow> int" where
  \<comment> \<open>\<open>Time.Sub\<close> returns the maximum (or minimum) duration when the difference does not fit\<close>
  "sat64 x = (if x > maxDuration then maxDuration
              else if x < minDuration then minDuration else x)"

definition unixToInternal :: int where
  "unixToInternal = 62135596800"

record Time =
  sec :: int
  nsec :: int
  mono :: "int option"

record reading =
  wall_ns :: int
  mono_ns :: int

definition zeroTime :: Time where
  \<comment> \<open>the zero value \<open>time.Time{}\<close>\<close>
  "zeroTime = \<lparr>sec = 0, nsec = 0, mono = None\<rparr>"

definition hasMonotonic :: "reading \<Rightarrow> bool" where
  \<comment> \<open>\<open>time.Now()\<close> keeps the monotonic reading when the wall clock, in seconds since 1885,
      fits 33 bits (years 1885 to 2157)\<close>
  "hasMonotonic r =
     (0 \<le> wall_ns r div Second + 2682288000 \<and> wall_ns r div Second + 2682288000 < 2 ^ 33)"

definition time_Now :: "reading \<Rightarrow> Time" where
  "time_Now r = \<lparr>sec = wall_ns r div Second + unixToInternal,
                 nsec = wall_ns r mod Second,
                 mono = (if hasMonotonic r then Some (mono_ns r) else None)\<rparr>"

definition time_Unix :: "int \<Rightarrow> Time" where
  \<comment> \<open>\<open>time.Unix(s, 0)\<close>: the addition is int64 addition\<close>
  "time_Unix s = \<lparr>sec = wrap64 (s + unixToInternal), nsec = 0, mono = None\<rparr>"

definition Unix :: "Time \<Rightarrow> int" where
  \<comment> \<open>the method \<open>t.Unix()\<close>\<close>
  "Unix t = wrap64 (sec t - unixToInternal)"

definition time_Sub :: "Time \<Rightarrow> Time \<Rightarrow> int" where
  \<comment> \<open>\<open>t.Sub(u)\<close>: on the monotonic readings when both have one, else on the wall clock\<close>
  "time_Sub t u =
     (case (mono t, mono u) of
        (Some a, Some b) \<Rightarrow> sat64 (a - b)
      | _ \<Rightarrow> sat64 ((sec t - sec u) * Second + (nsec t - nsec u)))"

definition time_Since :: "reading \<Rightarrow> Time \<Rightarrow> int" where
  \<comment> \<open>\<open>time.Since(t)\<close> evaluated when the clock shows \<open>r\<close>: on the monotonic clock when
      \<open>t\<close> has a monotonic reading, else \<open>time.Now().Sub(t)\<close>\<close>
  "time_Since r t =
     (case mono t of
        Some m \<Rightarrow> sat64 (mono_ns r - m)
      | None \<Rightarrow> time_Sub (time_Now r) t)"

definition time_Add :: "Time \<Rightarrow> int \<Rightarrow> Time" where
  \<comment> \<open>\<open>t.Add(d)\<close>; the monotonic reading is dropped when it would overflow\<close>
  "time_Add t d =
     (let n = nsec t + d mod Second;
          c = (if n \<ge> Second then 1 else 0)
      in \<lparr>sec = wrap64 (sec t + d div Second + c),
          nsec = n - c * Second,
          mono = (case mono t of
                    None \<Rightarrow> None
                  | Some m \<Rightarrow> if m + d > maxDuration \<or> m + d < minDuration then None
                             else Some (m + d))\<rparr>)"

subsection \<open>strings\<close>

text \<open>A Go string is a sequence of bytes; so is a \<open>string\<close> here.\<close>

definition HasPrefix :: "string \<Rightarrow> string \<Rightarrow> bool" where
  "HasPrefix s p = (length p \<le> length s \<and> take (length p) s = p)"

definition HasSuffix :: "string \<Rightarrow> string \<Rightarrow> bool" where
  "HasSuffix s p = (length p \<le> length s \<and> drop (length s - length p) s = p)"

definition TrimPrefix :: "string \<Rightarrow> string \<Rightarrow> string" where
  "TrimPrefix s p = (if HasPrefix s p then drop (length p) s else s)"

definition TrimSuffix :: "string \<Rightarrow> string \<Rightarrow> string" where
  "TrimSuffix s p = (if HasSuffix s p then take (length s - length p) s else s)"

fun Split :: "string \<Rightarrow> char \<Rightarrow> string list" where
  \<comment> \<open>\<open>strings.Split(s, sep)\<close> for a separator of one byte\<close>
  "Split [] c = [[]]"
| "Split (x # xs) c =
     (if x = c then [] # Split xs c
      else (case Split xs c of [] \<Rightarrow> [[x]] | p # ps \<Rightarrow> (x # p) # ps))"

definition spaceRunes :: "string list" where
  \<comment> \<open>the UTF-8 encodings of the code points with \<open>unicode.IsSpace\<close>: U+0009..U+000D,
      U+0020, U+0085, U+00A0, U+1680, U+2000..U+200A, U+2028, U+2029, U+202F, U+205F, U+3000\<close>
  "spaceRunes =
     [[CHR 0x09], [CHR 0x0A], [CHR 0x0B], [CHR 0x0C], [CHR 0x0D], [CHR 0x20],
      [CHR 0xC2, CHR 0x85], [CHR 0xC2, CHR 0xA0], [CHR 0xE1, CHR 0x9A, CHR 0x80],
      [CHR 0xE2, CHR 0x80, CHR 0x80], [CHR 0xE2, CHR 0x80, CHR 0x81],
      [CHR 0xE2, CHR 0x80, CHR 0x82], [CHR 0xE2, CHR 0x80, CHR 0x83],
      [CHR 0xE2, CHR 0x80, CHR 0x84], [CHR 0xE2, CHR 0x80, CHR 0x85],
      [CHR 0xE2, CHR 0x80, CHR 0x86], [CHR 0xE2, CHR 0x80, CHR 0x87],
      [CHR 0xE2, CHR 0x80, CHR 0x88], [CHR 0xE2, CHR 0x80, CHR 0x89],
      [CHR 0xE2, CHR 0x80, CHR 0x8A], [CHR 0xE2, CHR 0x80, CHR 0xA8],
      [CHR 0xE2, CHR 0x80, CHR 0xA9], [CHR 0xE2, CHR 0x80, CHR 0xAF],
      [CHR 0xE2, CHR 0x81, CHR 0x9F], [CHR 0xE3, CHR 0x80, CHR 0x80]]"

definition leadingSpace :: "string \<Rightarrow> nat" where
  \<comment> \<open>the width in bytes of a space rune at the start of \<open>s\<close>, 0 when there is none\<close>
  "leadingSpace s = (case filter (HasPrefix s) spaceRunes of [] \<Rightarrow> 0 | r # _ \<Rightarrow> length r)"

definition trailingSpace :: "string \<Rightarrow> nat" where
  "trailingSpace s = (case filter (HasSuffix s) spaceRunes of [] \<Rightarrow> 0 | r # _ \<Rightarrow> length r)"

function TrimLeftSpace :: "string \<Rightarrow> string" where
  "TrimLeftSpace s =
     (if leadingSpace s = 0 \<or> s = [] then s else TrimLeftSpace (drop (leadingSpace s) s))"
  by pat_completeness auto
termination
  by (relation "measure length") auto

function TrimRightSpace :: "string \<Rightarrow> string" where
  "TrimRightSpace s =
     (if trailingSpace s = 0 \<or> s = [] then s
      else TrimRightSpace (take (length s - trailingSpace s) s))"
  by pat_completeness auto
termination
  by (relation "measure length") auto

definition TrimSpace :: "string \<Rightarrow> string" where
  \<comment> \<open>\<open>strings.TrimSpace\<close>: leading space runes are cut first, then trailing ones\<close>
  "TrimSpace s = TrimRightSpace (TrimLeftSpace s)"

definition plainByte :: "char \<Rightarrow> bool" where
  \<comment> \<open>a printable ASCII byte other than the space\<close>
  "plainByte c = (33 \<le> (of_char c :: int) \<and> (of_char c :: int) \<le> 126)"

subsection \<open>Numbers in text\<close>

definition digitVal :: "char \<Rightarrow> int" where
  \<comment> \<open>the digit value of a byte in \<open>big.Int.SetString\<close> for a base up to 36; 63 for no digit\<close>
  "digitVal c =
     (let n = (of_char c :: int) in
      if 48 \<le> n \<and> n \<le> 57 then n - 48
      else if 97 \<le> n \<and> n \<le> 122 then n - 97 + 10
      else if 65 \<le> n \<and> n \<le> 90 then n - 65 + 10
      else 63)"

definition digitsValue :: "int \<Rightarrow> string \<Rightarrow> int" where
  "digitsValue b ds = foldl (\<lambda>a c. a * b + digitVal c) 0 ds"

definition scanSign :: "string \<Rightarrow> bool \<times> string" where
  \<comment> \<open>an optional leading \<open>+\<close> or \<open>-\<close>\<close>
  "scanSign s =
     (case s of
        [] \<Rightarrow> (False, [])
      | c # r \<Rightarrow> if c = CHR ''-'' then (True, r) else if c = CHR ''+'' then (False, r) else (False, s))"

definition SetString :: "string \<Rightarrow> int \<Rightarrow> int option" where
  \<comment> \<open>\<open>new(big.Int).SetString(s, base)\<close> for a base from 2 to 36: \<open>None\<close> when \<open>ok\<close> is false\<close>
  "SetString s b =
     (case scanSign s of (neg, ds) \<Rightarrow>
        if ds = [] \<or> (\<exists>c \<in> set ds. digitVal c \<ge> b) then None
        else Some (if neg then - digitsValue b ds else digitsValue b ds))"


definition isDecimal :: "char \<Rightarrow> bool" where
  "isDecimal c = (48 \<le> (of_char c :: int) \<and> (of_char c :: int) \<le> 57)"

definition ParseInt :: "string \<Rightarrow> int option" where
  \<comment> \<open>\<open>strconv.ParseInt(s, 10, 64)\<close>: \<open>None\<close> when \<open>err\<close> is not nil (syntax or range)\<close>
  "ParseInt s =
     (case scanSign s of (neg, ds) \<Rightarrow>
        if ds = [] \<or> (\<exists>c \<in> set ds. \<not> isDecimal c) then None
        else let v = (if neg then - digitsValue 10 ds else digitsValue 10 ds)
             in if v < - (2 ^ 63) \<or> v > 2 ^ 63 - 1 then None else Some v)"

definition Atoi :: "string \<Rightarrow> int option" where
  \<comment> \<open>\<open>strconv.Atoi\<close> where \<open>int\<close> has 64 bits: it accepts what \<open>ParseInt(s, 10, 64)\<close> accepts\<close>
  "Atoi s = ParseInt s"

function decString :: "int \<Rightarrow> string" where
  \<comment> \<open>the decimal digits of a number that is not negative\<close>
  "decString n =
     (if n < 10 then [char_of (48 + n)] else decString (n div 10) @ [char_of (48 + n mod 10)])"
  by pat_completeness auto
termination
  by (relation "measure nat") auto

definition intString :: "int \<Rightarrow> string" where
  \<comment> \<open>decimal text: \<open>(*big.Int).String()\<close> and the verb \<open>%d\<close>\<close>
  "intString i = (if i < 0 then CHR ''-'' # decString (- i) else decString i)"

declare decString.simps [simp del]
declare TrimLeftSpace.simps [simp del]
declare TrimRightSpace.simps [simp del]

subsection \<open>Files\<close>

text \<open>
  The file system is an association list from paths to nodes; the first binding of a path
  counts. A \<open>File\<close> reads as its content; a \<open>NoAccess\<close> node cannot be opened; a
  \<open>Faulty\<close> node opens, delivers its bytes and then fails to read with the given error;
  a directory opens, and reading it fails with \<open>EISDIR\<close>. The system walks to a path
  through its ancestors: the walk fails with \<open>ENOTDIR\<close> at an ancestor that is a file and
  with \<open>EACCES\<close> at one that cannot be opened. An ancestor that is not bound is a
  directory for the paths bound below it; a file is created, and a directory is listed,
  only where the directory itself is bound.
\<close>

datatype errno = ENOENT | EACCES | EISDIR | ENOTDIR | EIO | ENOSPC

datatype node = File string | Dir | NoAccess | Faulty string errno

type_synonym filesystem = "(string \<times> node) list"

type_synonym error = string

datatype oserr = PathError string string errno

fun errnoText :: "errno \<Rightarrow> string" where
  "errnoText ENOENT = ''no such file or directory''"
| "errnoText EACCES = ''permission denied''"
| "errnoText EISDIR = ''is a directory''"
| "errnoText ENOTDIR = ''not a directory''"
| "errnoText EIO = ''input/output error''"
| "errnoText ENOSPC = ''no space left on device''"

fun Error :: "oserr \<Rightarrow> error" where
  "Error (PathError op path e) = op @ '' '' @ path @ '': '' @ errnoText e"

fun IsNotExist :: "oserr \<Rightarrow> bool" where
  "IsNotExist (PathError op path e) = (e = ENOENT)"

fun ancestorsFrom :: "string \<Rightarrow> string \<Rightarrow> string list" where
  \<comment> \<open>\<open>a\<close> is the part of the path already walked\<close>
  "ancestorsFrom a [] = []"
| "ancestorsFrom a (c # cs) =
     (if c = CHR ''/'' then a # ancestorsFrom (a @ [c]) cs else ancestorsFrom (a @ [c]) cs)"

definition ancestors :: "string \<Rightarrow> string list" where
  \<comment> \<open>the paths above \<open>p\<close>, outermost first: \<open>a\<close> and \<open>a/b\<close> for \<open>a/b/c\<close>\<close>
  "ancestors p = ancestorsFrom [] p"

fun walkError :: "filesystem \<Rightarrow> string list \<Rightarrow> errno option" where
  \<comment> \<open>the error at the first of these ancestors that is no directory\<close>
  "walkError fs [] = None"
| "walkError fs (a # as) =
     (case map_of fs a of
        Some (File b) \<Rightarrow> Some ENOTDIR
      | Some (Faulty b e) \<Rightarrow> Some ENOTDIR
      | Some NoAccess \<Rightarrow> Some EACCES
      | _ \<Rightarrow> walkError fs as)"

definition os_Open :: "filesystem \<Rightarrow> string \<Rightarrow> oserr + (string \<times> oserr option)" where
  \<comment> \<open>an open file is the bytes it will deliver and the error, if any, that ends the reading\<close>
  "os_Open fs p =
     (case walkError fs (ancestors p) of
        Some e \<Rightarrow> Inl (PathError ''open'' p e)
      | None \<Rightarrow>
     (case map_of fs p of
        None \<Rightarrow> Inl (PathError ''open'' p ENOENT)
      | Some (File b) \<Rightarrow> Inr (b, None)
      | Some Dir \<Rightarrow> Inr ([], Some (PathError ''read'' p EISDIR))
      | Some NoAccess \<Rightarrow> Inl (PathError ''open'' p EACCES)
      | Some (Faulty b e) \<Rightarrow> Inr (b, Some (PathError ''read'' p e))))"

definition os_ReadFile :: "filesystem \<Rightarrow> string \<Rightarrow> oserr + string" where
  "os_ReadFile fs p =
     (case os_Open fs p of
        Inl e \<Rightarrow> Inl e
      | Inr (b, None) \<Rightarrow> Inr b
      | Inr (b, Some e) \<Rightarrow> Inl e)"

definition filepath_Join :: "string \<Rightarrow> string \<Rightarrow> string" where
  \<comment> \<open>\<open>filepath.Join\<close> of a directory and a file name, both clean\<close>
  "filepath_Join d n = d @ ''/'' @ n"

record DirEntry =
  Name :: string
  IsDir :: bool

definition childName :: "string \<Rightarrow> string \<Rightarrow> string option" where
  \<comment> \<open>the name under which path \<open>p\<close> is an entry of directory \<open>d\<close>\<close>
  "childName d p =
     (let n = drop (length d + 1) p
      in if HasPrefix p (d @ ''/'') \<and> n \<noteq> [] \<and> CHR ''/'' \<notin> set n then Some n else None)"

definition os_ReadDir :: "filesystem \<Rightarrow> string \<Rightarrow> oserr + DirEntry list" where
  \<comment> \<open>the entries of a directory, sorted by file name\<close>
  "os_ReadDir fs d =
     (case walkError fs (ancestors d) of
        Some e \<Rightarrow> Inl (PathError ''open'' d e)
      | None \<Rightarrow>
     (case map_of fs d of
        Some Dir \<Rightarrow>
          Inr (map (\<lambda>n. \<lparr>Name = n, IsDir = (map_of fs (filepath_Join d n) = Some Dir)\<rparr>)
                 (sort (remdups (List.map_filter (\<lambda>(p, x). childName d p) fs))))
      | None \<Rightarrow> Inl (PathError ''open'' d ENOENT)
      | Some NoAccess \<Rightarrow> Inl (PathError ''open'' d EACCES)
      | Some _ \<Rightarrow> Inl (PathError ''readdirent'' d ENOTDIR)))"

datatype write_fault = WriteFault errno "string option"

definition parentDir :: "string \<Rightarrow> string" where
  "parentDir p = rev (drop 1 (dropWhile (\<lambda>c. c \<noteq> CHR ''/'') (rev p)))"

definition putNode :: "string \<Rightarrow> node \<Rightarrow> filesystem \<Rightarrow> filesystem" where
  "putNode p x fs = (p, x) # filter (\<lambda>(q, y). q \<noteq> p) fs"

definition os_WriteFile ::
  "(string \<Rightarrow> write_fault option) \<Rightarrow> filesystem \<Rightarrow> string \<Rightarrow> string \<Rightarrow> oserr option \<times> filesystem" where
  \<comment> \<open>\<open>os.WriteFile\<close>. A write can fail for a reason outside the model (a full disk, a
      revoked permission): \<open>flt p = Some (WriteFault e left)\<close> makes the write to \<open>p\<close> fail
      with \<open>e\<close>, leaving the file untouched (\<open>left = None\<close>) or holding \<open>left\<close>.\<close>
  "os_WriteFile flt fs p bs =
     (case flt p of
        Some (WriteFault e left) \<Rightarrow>
          (Some (PathError ''write'' p e),
           case left of None \<Rightarrow> fs | Some b \<Rightarrow> putNode p (File b) fs)
      | None \<Rightarrow>
          (case walkError fs (ancestors p) of
             Some e \<Rightarrow> (Some (PathError ''open'' p e), fs)
           | None \<Rightarrow>
               if CHR ''/'' \<in> set p \<and> map_of fs (parentDir p) \<noteq> Some Dir
               then (Some (PathError ''open'' p ENOENT), fs)
               else (case map_of fs p of
                       Some Dir \<Rightarrow> (Some (PathError ''open'' p EISDIR), fs)
                     | Some NoAccess \<Rightarrow> (Some (PathError ''open'' p EACCES), fs)
                     | _ \<Rightarrow> (None, putNode p (File bs) fs))))"

subsection \<open>bufio.Scanner with the default split function ScanLines\<close>

definition MaxScanTokenSize :: int where
  "MaxScanTokenSize = 64 * 1024"

definition dropCR :: "string \<Rightarrow> string" where
  "dropCR l = (if l \<noteq> [] \<and> last l = CHR 0x0D then butlast l else l)"

definition rawLines :: "string \<Rightarrow> string list" where
  \<comment> \<open>the input cut at each newline; what follows the last newline is a line when it is not empty\<close>
  "rawLines bs = (let ps = Split bs (CHR 0x0A) in if last ps = [] then butlast ps else ps)"

fun scanTokens :: "string list \<Rightarrow> string list \<times> bool" where
  \<comment> \<open>the tokens \<open>Scan\<close> delivers, and whether it stopped at a line that does not fit the
      buffer: the buffer grows to \<open>MaxScanTokenSize\<close> bytes and must hold the line and,
      unless the input ends there, its newline\<close>
  "scanTokens [] = ([], False)"
| "scanTokens (l # ls) =
     (if int (length l) \<ge> MaxScanTokenSize then ([], True)
      else (case scanTokens ls of (ts, long) \<Rightarrow> (dropCR l # ts, long)))"

datatype scanErr = ErrTooLong | ReadErr oserr

fun scanErrText :: "scanErr \<Rightarrow> error" where
  "scanErrText ErrTooLong = ''bufio.Scanner: token too long''"
| "scanErrText (ReadErr e) = Error e"

definition Scanner :: "string \<times> oserr option \<Rightarrow> string list \<times> scanErr option" where
  \<comment> \<open>all tokens of \<open>for scanner.Scan()\<close> in order, then \<open>scanner.Err()\<close>\<close>
  "Scanner f =
     (case scanTokens (rawLines (fst f)) of
        (ts, long) \<Rightarrow> (ts, if long then Some ErrTooLong else map_option ReadErr (snd f)))"

subsection \<open>encoding/pem and crypto/x509\<close>

text \<open>
  The decoders and the CRL encoder are not part of this program: they are parameters.
  \<open>ParsePKCS8PrivateKey\<close> returns an RSA, ECDSA, Ed25519 or ECDH key; all but the last
  implement \<open>crypto.Signer\<close>.
\<close>

datatype Certificate = Certificate string

datatype PrivateKey =
  RSAPrivateKey string | ECDSAPrivateKey string | Ed25519PrivateKey string | ECDHPrivateKey string

fun isSigner :: "PrivateKey \<Rightarrow> bool" where
  "isSigner (ECDHPrivateKey k) = False"
| "isSigner k = True"

record RevocationListEntry =
  EntrySerialNumber :: int
  EntryRevocationTime :: Time
  ReasonCode :: int

record RevocationList =
  Number :: int
  ThisUpdate :: Time
  NextUpdate :: Time
  RevokedCertificateEntries :: "RevocationListEntry list"

record x509 =
  pem_Decode :: "string \<Rightarrow> string option"
  ParseCertificate :: "string \<Rightarrow> error + Certificate"
  ParsePKCS8PrivateKey :: "string \<Rightarrow> error + PrivateKey"
  ParsePKCS1PrivateKey :: "string \<Rightarrow> error + PrivateKey"
  ParseECPrivateKey :: "string \<Rightarrow> error + PrivateKey"
  CreateRevocationList :: "RevocationList \<Rightarrow> Certificate \<Rightarrow> PrivateKey \<Rightarrow> error + string"

section \<open>main.go\<close>

definition cacheDir :: string where
  "cacheDir = ''temp''"

record RevokedCert =
  SerialNumber :: int
  RevocationTime :: Time
  Reason :: int

text \<open>The mutex of \<open>CRLServer\<close> is not a field here: the functions below are the code that
  one request runs, from the acquisition of a lock to its release.\<close>

record CRLServer =
  crtFile :: string
  keyFile :: string
  listFile :: string
  cachedCRL :: "string option"
  cacheTime :: Time
  cacheNumber :: "int option"

text \<open>What the program prints with \<open>log.Printf\<close> and \<open>log.Println\<close>, in order.\<close>

datatype logmsg =
  LoadingCertAndKey
| LoadingRevocationList
| LoadedRevoked nat
| WarnInvalidFormat nat string
| WarnInvalidSerial nat string
| WarnInvalidEpoch nat string
| WarnInvalidReason nat string
| WarnSaveFailed error
| GeneratedCRL int
| LoadedCachedCRL string

subsection \<open>loadCertAndKey\<close>

datatype keyFormat = PKCS8 | PKCS1 | EC

definition parsePrivateKey :: "x509 \<Rightarrow> string \<Rightarrow> keyFormat list \<times> (error + PrivateKey)" where
  \<comment> \<open>lines 349 to 363: the decoders called, in the order of the calls, and the outcome\<close>
  "parsePrivateKey X bytes =
     (case ParsePKCS8PrivateKey X bytes of
        Inr k \<Rightarrow> ([PKCS8], Inr k)
      | Inl e8 \<Rightarrow>
          (case ParsePKCS1PrivateKey X bytes of
             Inr k \<Rightarrow> ([PKCS8, PKCS1], Inr k)
           | Inl e1 \<Rightarrow>
               (case ParseECPrivateKey X bytes of
                  Inr k \<Rightarrow> ([PKCS8, PKCS1, EC], Inr k)
                | Inl e \<Rightarrow> ([PKCS8, PKCS1, EC], Inl (''parsing key: '' @ e)))))"

definition loadCertAndKey ::
  "x509 \<Rightarrow> filesystem \<Rightarrow> string \<Rightarrow> string \<Rightarrow> error + Certificate \<times> PrivateKey" where
  "loadCertAndKey X fs crt key =
     (case os_ReadFile fs crt of
        Inl e \<Rightarrow> Inl (''reading cert file: '' @ Error e)
      | Inr certData \<Rightarrow>
     (case pem_Decode X certData of
        None \<Rightarrow> Inl ''failed to parse certificate PEM''
      | Some block \<Rightarrow>
     (case ParseCertificate X block of
        Inl e \<Rightarrow> Inl (''parsing certificate: '' @ e)
      | Inr caCert \<Rightarrow>
     (case os_ReadFile fs key of
        Inl e \<Rightarrow> Inl (''reading key file: '' @ Error e)
      | Inr keyData \<Rightarrow>
     (case pem_Decode X keyData of
        None \<Rightarrow> Inl ''failed to parse key PEM''
      | Some block \<Rightarrow>
     (case snd (parsePrivateKey X block) of
        Inl e \<Rightarrow> Inl e
      | Inr caPrivKey \<Rightarrow>
          if isSigner caPrivKey then Inr (caCert, caPrivKey)
          else Inl ''key does not implement crypto.Signer''))))))"

subsection \<open>loadRevokedCertificates\<close>

fun scanLoop ::
  "string list \<Rightarrow> nat \<Rightarrow> RevokedCert list \<Rightarrow> logmsg list \<Rightarrow> RevokedCert list \<times> logmsg list" where
  \<comment> \<open>the body of \<open>for scanner.Scan()\<close>, lines 186 to 229, over the tokens still to come\<close>
  "scanLoop [] lineNum revokedCerts logs = (revokedCerts, logs)"
| "scanLoop (text # rest) lineNum0 revokedCerts logs =
     (let lineNum = lineNum0 + 1;
          line = TrimSpace text
      in if line = [] \<or> HasPrefix line ''#'' then scanLoop rest lineNum revokedCerts logs
         else
           let parts = Split line CHR '':''
           in if length parts \<noteq> 3
              then scanLoop rest lineNum revokedCerts (logs @ [WarnInvalidFormat lineNum line])
              else
                (case SetString (parts ! 0) 16 of
                   None \<Rightarrow>
                     scanLoop rest lineNum revokedCerts (logs @ [WarnInvalidSerial lineNum (parts ! 0)])
                 | Some serial \<Rightarrow>
                (case ParseInt (parts ! 1) of
                   None \<Rightarrow>
                     scanLoop rest lineNum revokedCerts (logs @ [WarnInvalidEpoch lineNum (parts ! 1)])
                 | Some epoch \<Rightarrow>
                (case Atoi (parts ! 2) of
                   None \<Rightarrow>
                     scanLoop rest lineNum revokedCerts (logs @ [WarnInvalidReason lineNum (parts ! 2)])
                 | Some reason \<Rightarrow>
                     scanLoop rest lineNum
                       (revokedCerts @
                          [\<lparr>SerialNumber = serial, RevocationTime = time_Unix epoch, Reason = reason\<rparr>])
                       logs))))"

definition loadRevokedCertificates ::
  "filesystem \<Rightarrow> CRLServer \<Rightarrow> logmsg list \<times> (error + RevokedCert list)" where
  "loadRevokedCertificates fs s =
     (case os_Open fs (listFile s) of
        Inl err \<Rightarrow>
          if IsNotExist err then ([], Inr []) else ([], Inl (''opening file: '' @ Error err))
      | Inr file \<Rightarrow>
          (case Scanner file of (tokens, serr) \<Rightarrow>
             (case scanLoop tokens 0 [] [] of (revokedCerts, logs) \<Rightarrow>
                (case serr of
                   Some err \<Rightarrow> (logs, Inl (''reading file: '' @ scanErrText err))
                 | None \<Rightarrow> (logs, Inr revokedCerts)))))"

subsection \<open>saveCachedCRL\<close>

definition numberString :: "int option \<Rightarrow> string" where
  \<comment> \<open>\<open>(*big.Int).String()\<close>, which prints a nil pointer as \<open><nil>\<close>\<close>
  "numberString n = (case n of None \<Rightarrow> ''<nil>'' | Some i \<Rightarrow> intString i)"

definition bytesOf :: "string option \<Rightarrow> string" where
  \<comment> \<open>a nil slice is written as no bytes\<close>
  "bytesOf b = (case b of None \<Rightarrow> [] | Some x \<Rightarrow> x)"

definition saveCachedCRL ::
  "(string \<Rightarrow> write_fault option) \<Rightarrow> filesystem \<Rightarrow> CRLServer \<Rightarrow> oserr option \<times> filesystem" where
  "saveCachedCRL flt fs s =
     (let cacheFile = filepath_Join cacheDir (''crl-'' @ numberString (cacheNumber s) @ ''.der'')
      in case os_WriteFile flt fs cacheFile (bytesOf (cachedCRL s)) of
           (Some err, fs1) \<Rightarrow> (Some err, fs1)
         | (None, fs1) \<Rightarrow>
             let metaFile = filepath_Join cacheDir (''crl-'' @ numberString (cacheNumber s) @ ''.meta'');
                 metaContent = intString (Unix (cacheTime s)) @ [CHR 0x0A]
             in os_WriteFile flt fs1 metaFile metaContent)"

subsection \<open>loadCachedCRL\<close>

text \<open>\<open>clk name\<close> is the clock reading when the entry \<open>name\<close> is checked at line 300.\<close>

fun scanEntries ::
  "(string \<Rightarrow> reading) \<Rightarrow> filesystem \<Rightarrow> DirEntry list \<Rightarrow> int option \<times> Time \<times> string
     \<Rightarrow> int option \<times> Time \<times> string" where
  \<comment> \<open>the loop of lines 265 to 306 on \<open>(latestNumber, latestTime, latestFile)\<close>\<close>
  "scanEntries clk fs [] latest = latest"
| "scanEntries clk fs (entry # rest) (latestNumber, latestTime, latestFile) =
     (if IsDir entry then scanEntries clk fs rest (latestNumber, latestTime, latestFile)
      else
        let name = Name entry
        in if \<not> HasPrefix name ''crl-'' \<or> \<not> HasSuffix name ''.der''
           then scanEntries clk fs rest (latestNumber, latestTime, latestFile)
           else
             let numberStr = TrimSuffix (TrimPrefix name ''crl-'') ''.der''
             in (case SetString numberStr 10 of
                   None \<Rightarrow> scanEntries clk fs rest (latestNumber, latestTime, latestFile)
                 | Some number \<Rightarrow>
                     if (case latestNumber of None \<Rightarrow> True | Some l \<Rightarrow> number > l)
                     then
                       (case os_ReadFile fs (filepath_Join cacheDir (''crl-'' @ numberStr @ ''.meta'')) of
                          Inl err \<Rightarrow> scanEntries clk fs rest (latestNumber, latestTime, latestFile)
                        | Inr metaContent \<Rightarrow>
                       (case ParseInt (TrimSpace metaContent) of
                          None \<Rightarrow> scanEntries clk fs rest (latestNumber, latestTime, latestFile)
                        | Some timestamp \<Rightarrow>
                            if time_Since (clk name) (time_Unix timestamp) < cacheDuration
                            then scanEntries clk fs rest
                                   (Some number, time_Unix timestamp, filepath_Join cacheDir name)
                            else scanEntries clk fs rest (latestNumber, latestTime, latestFile)))
                     else scanEntries clk fs rest (latestNumber, latestTime, latestFile)))"

definition better :: "int option \<Rightarrow> int \<Rightarrow> bool" where
  \<comment> \<open>the test of line 284\<close>
  "better l n = (case l of None \<Rightarrow> True | Some x \<Rightarrow> n > x)"

definition candidate ::
  "(string \<Rightarrow> reading) \<Rightarrow> filesystem \<Rightarrow> DirEntry \<Rightarrow> int option \<times> Time \<times> string" where
  \<comment> \<open>what the loop selects when \<open>entry\<close> is the only entry of the directory\<close>
  "candidate clk fs entry = scanEntries clk fs [entry] (None, zeroTime, [])"

definition loadCachedCRL ::
  "(string \<Rightarrow> reading) \<Rightarrow> filesystem \<Rightarrow> CRLServer \<Rightarrow> CRLServer \<times> logmsg list" where
  "loadCachedCRL clk fs s =
     (case os_ReadDir fs cacheDir of
        Inl err \<Rightarrow> (s, [])
      | Inr entries \<Rightarrow>
          (case scanEntries clk fs entries (None, zeroTime, []) of
             (latestNumber, latestTime, latestFile) \<Rightarrow>
               if latestFile \<noteq> [] then
                 (case os_ReadFile fs latestFile of
                    Inr crlBytes \<Rightarrow>
                      (s\<lparr>cachedCRL := Some crlBytes, cacheTime := latestTime,
                          cacheNumber := latestNumber\<rparr>,
                       [LoadedCachedCRL (numberString latestNumber)])
                  | Inl err \<Rightarrow> (s, []))
               else (s, [])))"

subsection \<open>getCRL\<close>

text \<open>The clock is read at most three times: at the check under the read lock (line 102),
  at the check under the write lock (line 113) and by \<open>time.Now()\<close> (line 133).\<close>

record clock =
  atRLock :: reading
  atLock :: reading
  atNow :: reading

definition cacheValid :: "CRLServer \<Rightarrow> reading \<Rightarrow> bool" where
  \<comment> \<open>the condition of lines 102 and 113\<close>
  "cacheValid s r = (cachedCRL s \<noteq> None \<and> time_Since r (cacheTime s) < cacheDuration)"

definition crlTemplate :: "Time \<Rightarrow> RevokedCert list \<Rightarrow> RevocationList" where
  \<comment> \<open>lines 134 to 149\<close>
  "crlTemplate now revokedCerts =
     \<lparr>Number = Unix now, ThisUpdate = now, NextUpdate = time_Add now cacheDuration,
      RevokedCertificateEntries =
        map (\<lambda>rc. \<lparr>EntrySerialNumber = SerialNumber rc,
                    EntryRevocationTime = RevocationTime rc,
                    ReasonCode = Reason rc\<rparr>) revokedCerts\<rparr>"

definition getCRL ::
  "x509 \<Rightarrow> (string \<Rightarrow> write_fault option) \<Rightarrow> clock \<Rightarrow> filesystem \<Rightarrow> CRLServer
     \<Rightarrow> (error + string) \<times> CRLServer \<times> filesystem \<times> logmsg list" where
  "getCRL X flt clk fs s =
     (if cacheValid s (atRLock clk) then (Inr (bytesOf (cachedCRL s)), s, fs, [])
      else if cacheValid s (atLock clk) then (Inr (bytesOf (cachedCRL s)), s, fs, [])
      else
        (case loadCertAndKey X fs (crtFile s) (keyFile s) of
           Inl err \<Rightarrow>
             (Inl (''loading certificate and key: '' @ err), s, fs, [LoadingCertAndKey])
         | Inr (caCert, caPrivKey) \<Rightarrow>
        (case loadRevokedCertificates fs s of
           (warnings, Inl err) \<Rightarrow>
             (Inl (''loading revoked certificates: '' @ err), s, fs,
              [LoadingCertAndKey, LoadingRevocationList] @ warnings)
         | (warnings, Inr revokedCerts) \<Rightarrow>
             let now = time_Now (atNow clk);
                 crlNumber = Unix now;
                 logs = [LoadingCertAndKey, LoadingRevocationList] @ warnings @
                        [LoadedRevoked (length revokedCerts)]
             in (case CreateRevocationList X (crlTemplate now revokedCerts) caCert caPrivKey of
                   Inl err \<Rightarrow> (Inl (''creating CRL: '' @ err), s, fs, logs)
                 | Inr crlBytes \<Rightarrow>
                     let s' = s\<lparr>cachedCRL := Some crlBytes, cacheTime := now,
                                 cacheNumber := Some crlNumber\<rparr>
                     in (case saveCachedCRL flt fs s' of
                           (Some err, fs') \<Rightarrow>
                             (Inr crlBytes, s', fs',
                              logs @ [WarnSaveFailed (Error err), GeneratedCRL crlNumber])
                         | (None, fs') \<Rightarrow>
                             (Inr crlBytes, s', fs', logs @ [GeneratedCRL crlNumber]))))))"

subsection \<open>A sequence of requests\<close>

text \<open>
  The requests of one process lifetime, in the order in which they hold the write lock
  (a request served under the read lock holds no write lock and changes nothing). Each
  request finds its own world: the decoders and the encoder, the faults of the disk, its
  clock readings and the files.
\<close>

type_synonym world = "x509 \<times> (string \<Rightarrow> write_fault option) \<times> clock \<times> filesystem"

fun serveAll :: "CRLServer \<Rightarrow> world list \<Rightarrow> CRLServer \<times> logmsg list" where
  "serveAll s [] = (s, [])"
| "serveAll s ((X, flt, clk, fs) # ws) =
     (case getCRL X flt clk fs s of
        (res, s', fs', lg) \<Rightarrow> (case serveAll s' ws of (s'', lgs) \<Rightarrow> (s'', lg @ lgs)))"

fun generatedNumbers :: "logmsg list \<Rightarrow> int list" where
  \<comment> \<open>the numbers of the artifacts generated, read off the log lines of line 167\<close>
  "generatedNumbers [] = []"
| "generatedNumbers (GeneratedCRL n # ms) = n # generatedNumbers ms"
| "generatedNumbers (m # ms) = generatedNumbers ms"

fun lockReadings :: "world list \<Rightarrow> reading list" where
  \<comment> \<open>the clock readings taken under the write lock, in order\<close>
  "lockReadings [] = []"
| "lockReadings ((X, flt, clk, fs) # ws) = atLock clk # atNow clk # lockReadings ws"

definition validReading :: "reading \<Rightarrow> bool" where
  \<comment> \<open>the wall clock shows a time that \<open>UnixNano\<close> can hold (years 1678 to 2262)\<close>
  "validReading r = (- (2 ^ 63) \<le> wall_ns r \<and> wall_ns r < 2 ^ 63)"

definition steady :: "reading \<Rightarrow> reading \<Rightarrow> bool" where
  \<comment> \<open>from reading \<open>a\<close> to the later reading \<open>b\<close> the monotonic clock did not go back, and the
      wall clock advanced at least as much as the monotonic clock: it was not set back\<close>
  "steady a b = (mono_ns a \<le> mono_ns b \<and> mono_ns b - mono_ns a \<le> wall_ns b - wall_ns a)"

subsection \<open>Concurrent requests\<close>

text \<open>
  Several goroutines run \<open>getCRL\<close> on one server. Each is at one of the points below;
  a step runs one goroutine from its point to the next, so that the steps of different
  goroutines interleave in any order. The mutex \<open>s.mu\<close> is the number of goroutines that
  hold the read lock and whether one holds the write lock. \<open>RLock\<close> waits while the write
  lock is held, \<open>Lock\<close> waits while any lock is held. (Go's \<open>RWMutex\<close> also makes
  \<open>RLock\<close> wait once a goroutine waits in \<open>Lock\<close>: the program has the schedules
  below, or fewer.) The three assignments of lines 158 to 160 are three steps. Between
  steps the clock may move to any reading.
\<close>

datatype pc =
    AtRLock \<comment> \<open>before line 100\<close>
  | AtCheck \<comment> \<open>holding the read lock, before line 102\<close>
  | AtLock \<comment> \<open>the read lock released, before line 109\<close>
  | AtRecheck \<comment> \<open>holding the write lock, before line 113\<close>
  | AtLoadKey \<comment> \<open>before line 119\<close>
  | AtLoadList Certificate PrivateKey \<comment> \<open>before line 126\<close>
  | AtNow Certificate PrivateKey "RevokedCert list" \<comment> \<open>before line 133\<close>
  | AtCreate Certificate PrivateKey "RevokedCert list" Time \<comment> \<open>before line 152\<close>
  | AtSetCRL string Time \<comment> \<open>before line 158\<close>
  | AtSetTime string Time \<comment> \<open>before line 159\<close>
  | AtSetNumber string Time \<comment> \<open>before line 160\<close>
  | AtSave string \<comment> \<open>before line 163\<close>
  | Returned "error + string" \<comment> \<open>returned, all locks released\<close>

record config =
  server :: CRLServer
  files :: filesystem
  readers :: nat
  writer :: bool
  threads :: "pc list"
  clockNow :: reading
  keyLoads :: nat \<comment> \<open>how many times \<open>loadCertAndKey\<close> was called\<close>
  encodings :: nat \<comment> \<open>how many times \<open>x509.CreateRevocationList\<close> was called\<close>

datatype action =
    Step nat \<comment> \<open>the goroutine of this index runs to its next point\<close>
  | Tick reading \<comment> \<open>time passes: the clock now shows this reading\<close>

definition exec ::
  "x509 \<Rightarrow> (string \<Rightarrow> write_fault option) \<Rightarrow> action \<Rightarrow> config \<Rightarrow> config option" where
  \<comment> \<open>\<open>None\<close>: the goroutine waits for the lock, or has returned, or there is no such
      goroutine\<close>
  "exec X flt a c =
     (case a of
        Tick r \<Rightarrow> Some (c\<lparr>clockNow := r\<rparr>)
      | Step i \<Rightarrow>
          if i \<ge> length (threads c) then None
          else
            (case threads c ! i of
               AtRLock \<Rightarrow>
                 if writer c then None
                 else Some (c\<lparr>readers := readers c + 1, threads := (threads c)[i := AtCheck]\<rparr>)
             | AtCheck \<Rightarrow>
                 if cacheValid (server c) (clockNow c)
                 then Some (c\<lparr>readers := readers c - 1,
                           threads := (threads c)[i := Returned (Inr (bytesOf (cachedCRL (server c))))]\<rparr>)
                 else Some (c\<lparr>readers := readers c - 1, threads := (threads c)[i := AtLock]\<rparr>)
             | AtLock \<Rightarrow>
                 if writer c \<or> readers c > 0 then None
                 else Some (c\<lparr>writer := True, threads := (threads c)[i := AtRecheck]\<rparr>)
             | AtRecheck \<Rightarrow>
                 if cacheValid (server c) (clockNow c)
                 then Some (c\<lparr>writer := False,
                           threads := (threads c)[i := Returned (Inr (bytesOf (cachedCRL (server c))))]\<rparr>)
                 else Some (c\<lparr>threads := (threads c)[i := AtLoadKey]\<rparr>)
             | AtLoadKey \<Rightarrow>
                 (case loadCertAndKey X (files c) (crtFile (server c)) (keyFile (server c)) of
                    Inl err \<Rightarrow>
                      Some (c\<lparr>keyLoads := keyLoads c + 1, writer := False,
                             threads := (threads c)
                               [i := Returned (Inl (''loading certificate and key: '' @ err))]\<rparr>)
                  | Inr (caCert, caPrivKey) \<Rightarrow>
                      Some (c\<lparr>keyLoads := keyLoads c + 1,
                             threads := (threads c)[i := AtLoadList caCert caPrivKey]\<rparr>))
             | AtLoadList caCert caPrivKey \<Rightarrow>
                 (case loadRevokedCertificates (files c) (server c) of
                    (warnings, Inl err) \<Rightarrow>
                      Some (c\<lparr>writer := False,
                             threads := (threads c)
                               [i := Returned (Inl (''loading revoked certificates: '' @ err))]\<rparr>)
                  | (warnings, Inr revokedCerts) \<Rightarrow>
                      Some (c\<lparr>threads := (threads c)[i := AtNow caCert caPrivKey revokedCerts]\<rparr>))
             | AtNow caCert caPrivKey revokedCerts \<Rightarrow>
                 Some (c\<lparr>threads := (threads c)
                          [i := AtCreate caCert caPrivKey revokedCerts (time_Now (clockNow c))]\<rparr>)
             | AtCreate caCert caPrivKey revokedCerts now \<Rightarrow>
                 (case CreateRevocationList X (crlTemplate now revokedCerts) caCert caPrivKey of
                    Inl err \<Rightarrow>
                      Some (c\<lparr>encodings := encodings c + 1, writer := False,
                             threads := (threads c)[i := Returned (Inl (''creating CRL: '' @ err))]\<rparr>)
                  | Inr crlBytes \<Rightarrow>
                      Some (c\<lparr>encodings := encodings c + 1,
                             threads := (threads c)[i := AtSetCRL crlBytes now]\<rparr>))
             | AtSetCRL crlBytes now \<Rightarrow>
                 Some (c\<lparr>server := (server c)\<lparr>cachedCRL := Some crlBytes\<rparr>,
                        threads := (threads c)[i := AtSetTime crlBytes now]\<rparr>)
             | AtSetTime crlBytes now \<Rightarrow>
                 Some (c\<lparr>server := (server c)\<lparr>cacheTime := now\<rparr>,
                        threads := (threads c)[i := AtSetNumber crlBytes now]\<rparr>)
             | AtSetNumber crlBytes now \<Rightarrow>
                 Some (c\<lparr>server := (server c)\<lparr>cacheNumber := Some (Unix now)\<rparr>,
                        threads := (threads c)[i := AtSave crlBytes]\<rparr>)
             | AtSave crlBytes \<Rightarrow>
                 Some (c\<lparr>files := snd (saveCachedCRL flt (files c) (server c)), writer := False,
                        threads := (threads c)[i := Returned (Inr crlBytes)]\<rparr>)
             | Returned res \<Rightarrow> None))"

fun run ::
  "x509 \<Rightarrow> (string \<Rightarrow> write_fault option) \<Rightarrow> config \<Rightarrow> action list \<Rightarrow> config option" where
  \<comment> \<open>a schedule, from the first action to the last; \<open>None\<close> when an action of it cannot
      be taken\<close>
  "run X flt c [] = Some c"
| "run X flt c (a # as) = (case exec X flt a c of None \<Rightarrow> None | Some c' \<Rightarrow> run X flt c' as)"

definition start :: "CRLServer \<Rightarrow> filesystem \<Rightarrow> reading \<Rightarrow> nat \<Rightarrow> config" where
  \<comment> \<open>\<open>n\<close> requests have arrived, none has taken a lock\<close>
  "start s fs r n =
     \<lparr>server = s, files = fs, readers = 0, writer = False, threads = replicate n AtRLock,
      clockNow = r, keyLoads = 0, encodings = 0\<rparr>"

fun ticks :: "action list \<Rightarrow> reading list" where
  \<comment> \<open>the readings that the clock shows in the course of a schedule, in order\<close>
  "ticks [] = []"
| "ticks (Tick r # as) = r # ticks as"
| "ticks (Step i # as) = ticks as"

fun isStep :: "action \<Rightarrow> bool" where
  "isStep (Step i) = True"
| "isStep (Tick r) = False"

fun rank :: "pc \<Rightarrow> nat" where
  \<comment> \<open>how many steps a goroutine at this point takes at most before it has returned\<close>
  "rank AtRLock = 12"
| "rank AtCheck = 11"
| "rank AtLock = 10"
| "rank AtRecheck = 9"
| "rank AtLoadKey = 8"
| "rank (AtLoadList ce k) = 7"
| "rank (AtNow ce k rcs) = 6"
| "rank (AtCreate ce k rcs now) = 5"
| "rank (AtSetCRL b now) = 4"
| "rank (AtSetTime b now) = 3"
| "rank (AtSetNumber b now) = 2"
| "rank (AtSave b) = 1"
| "rank (Returned res) = 0"

fun isCheck :: "pc \<Rightarrow> bool" where
  "isCheck AtCheck = True"
| "isCheck p = False"

fun inRegen :: "pc \<Rightarrow> bool" where
  \<comment> \<open>between the check of line 113 that found the cache stale and the return\<close>
  "inRegen AtRLock = False"
| "inRegen AtCheck = False"
| "inRegen AtLock = False"
| "inRegen AtRecheck = False"
| "inRegen (Returned res) = False"
| "inRegen p = True"

fun isReturned :: "pc \<Rightarrow> bool" where
  "isReturned (Returned res) = True"
| "isReturned p = False"

definition holdsLock :: "pc \<Rightarrow> bool" where
  \<comment> \<open>the points at which the goroutine holds the write lock\<close>
  "holdsLock p = (p = AtRecheck \<or> inRegen p)"

definition howMany :: "('a \<Rightarrow> bool) \<Rightarrow> 'a list \<Rightarrow> nat" where
  "howMany P xs = length (filter P xs)"

definition installed :: "CRLServer \<Rightarrow> string \<Rightarrow> Time \<Rightarrow> CRLServer" where
  \<comment> \<open>the server after lines 158 to 160 for the bytes \<open>b\<close> generated at \<open>now\<close>\<close>
  "installed s b now = s\<lparr>cachedCRL := Some b, cacheTime := now, cacheNumber := Some (Unix now)\<rparr>"

definition stamped :: "reading \<Rightarrow> config \<Rightarrow> Time \<Rightarrow> bool" where
  \<comment> \<open>\<open>now\<close> was read off the clock between the reading \<open>r0\<close> and the present\<close>
  "stamped r0 c now = (\<exists>rn. now = time_Now rn \<and> steady r0 rn \<and> steady rn (clockNow c))"

definition withinHour :: "reading \<Rightarrow> config \<Rightarrow> bool" where
  \<comment> \<open>less than \<open>cacheDuration\<close> of wall time has passed since the reading \<open>r0\<close>\<close>
  "withinHour r0 c = (wall_ns (clockNow c) - wall_ns r0 < cacheDuration)"

type_synonym setting =
  "CRLServer \<times> filesystem \<times> reading \<times> Certificate \<times> PrivateKey \<times> RevokedCert list"

definition succeeds :: "x509 \<Rightarrow> setting \<Rightarrow> bool" where
  \<comment> \<open>the cache of \<open>s0\<close> is stale at \<open>r0\<close>, and over the files \<open>fs0\<close> the credentials load as
      \<open>ce0\<close> and \<open>k0\<close>, the registry loads as \<open>rcs0\<close>, and the encoder accepts them\<close>
  "succeeds X w =
     (case w of (s0, fs0, r0, ce0, k0, rcs0) \<Rightarrow>
        \<not> cacheValid s0 r0
        \<and> loadCertAndKey X fs0 (crtFile s0) (keyFile s0) = Inr (ce0, k0)
        \<and> snd (loadRevokedCertificates fs0 s0) = Inr rcs0
        \<and> (\<forall>now. \<exists>b. CreateRevocationList X (crlTemplate now rcs0) ce0 k0 = Inr b))"

text \<open>What holds of every configuration that a schedule reaches when the regeneration
  succeeds and less than an hour has passed.\<close>

definition untouched :: "setting \<Rightarrow> config \<Rightarrow> nat \<Rightarrow> nat \<Rightarrow> bool" where
  "untouched w c l e =
     (case w of (s0, fs0, r0, ce0, k0, rcs0) \<Rightarrow>
        server c = s0 \<and> files c = fs0 \<and> keyLoads c = l \<and> encodings c = e)"

definition built :: "setting \<Rightarrow> config \<Rightarrow> bool" where
  "built w c =
     (case w of (s0, fs0, r0, ce0, k0, rcs0) \<Rightarrow>
        (\<exists>b now. server c = installed s0 b now \<and> stamped r0 c now)
        \<and> keyLoads c = 1 \<and> encodings c = 1)"

fun pcFact :: "setting \<Rightarrow> config \<Rightarrow> pc \<Rightarrow> bool" where
  \<comment> \<open>what a goroutine at this point knows\<close>
  "pcFact w c AtLoadKey = untouched w c 0 0"
| "pcFact w c (AtLoadList ce k) =
     (case w of (s0, fs0, r0, ce0, k0, rcs0) \<Rightarrow> untouched w c 1 0 \<and> ce = ce0 \<and> k = k0)"
| "pcFact w c (AtNow ce k rcs) =
     (case w of (s0, fs0, r0, ce0, k0, rcs0) \<Rightarrow>
        untouched w c 1 0 \<and> ce = ce0 \<and> k = k0 \<and> rcs = rcs0)"
| "pcFact w c (AtCreate ce k rcs now) =
     (case w of (s0, fs0, r0, ce0, k0, rcs0) \<Rightarrow>
        untouched w c 1 0 \<and> ce = ce0 \<and> k = k0 \<and> rcs = rcs0 \<and> stamped r0 c now)"
| "pcFact w c (AtSetCRL b now) =
     (case w of (s0, fs0, r0, ce0, k0, rcs0) \<Rightarrow> untouched w c 1 1 \<and> stamped r0 c now)"
| "pcFact w c (AtSetTime b now) =
     (case w of (s0, fs0, r0, ce0, k0, rcs0) \<Rightarrow>
        server c = s0\<lparr>cachedCRL := Some b\<rparr> \<and> files c = fs0 \<and> keyLoads c = 1 \<and> encodings c = 1
        \<and> stamped r0 c now)"
| "pcFact w c (AtSetNumber b now) =
     (case w of (s0, fs0, r0, ce0, k0, rcs0) \<Rightarrow>
        server c = s0\<lparr>cachedCRL := Some b, cacheTime := now\<rparr> \<and> files c = fs0
        \<and> keyLoads c = 1 \<and> encodings c = 1 \<and> stamped r0 c now)"
| "pcFact w c (AtSave b) =
     (case w of (s0, fs0, r0, ce0, k0, rcs0) \<Rightarrow>
        (\<exists>now. server c = installed s0 b now \<and> stamped r0 c now) \<and> files c = fs0
        \<and> keyLoads c = 1 \<and> encodings c = 1)"
| "pcFact w c (Returned res) = (res = Inr (bytesOf (cachedCRL (server c))) \<and> built w c)"
| "pcFact w c p = True"

definition coherent :: "setting \<Rightarrow> config \<Rightarrow> bool" where
  "coherent w c =
     (readers c = howMany isCheck (threads c)
      \<and> howMany holdsLock (threads c) = (if writer c then 1 else 0)
      \<and> (writer c \<longrightarrow> readers c = 0)
      \<and> steady (fst (snd (snd w))) (clockNow c)
      \<and> (\<forall>j < length (threads c). pcFact w c (threads c ! j))
      \<and> (howMany inRegen (threads c) = 0 \<longrightarrow> untouched w c 0 0 \<or> built w c)
      \<and> (0 < howMany inRegen (threads c) \<longrightarrow> howMany isReturned (threads c) = 0))"

section \<open>Sample worlds\<close>

text \<open>A server directory with a certificate, a key in PKCS#1, a registry of four lines and an
  empty cache directory; the decoders are stand-ins that accept what the names say.\<close>

definition demoFS :: filesystem where
  "demoFS =
     [(''temp'', Dir),
      (''tls/tls.crt'', File ''CERT''),
      (''tls/tls.key'', File ''RSA KEY''),
      (''conf/list.txt'',
       File (''BADHEX:100:1'' @ [CHR 0x0A] @ [CHR 0x0A] @ ''# comment'' @ [CHR 0x0A] @
             ''1A2B:1700000000:1'' @ [CHR 0x0A]))]"

definition demoX509 :: x509 where
  "demoX509 =
     \<lparr>pem_Decode = (\<lambda>b. if b = [] then None else Some b),
      ParseCertificate = (\<lambda>b. Inr (Certificate b)),
      ParsePKCS8PrivateKey =
        (\<lambda>b. if b = ''X25519 KEY'' then Inr (ECDHPrivateKey b)
              else Inl ''asn1: structure error: tags don't match''),
      ParsePKCS1PrivateKey =
        (\<lambda>b. if b = ''RSA KEY'' then Inr (RSAPrivateKey b)
              else Inl ''asn1: syntax error: truncated tag or length''),
      ParseECPrivateKey =
        (\<lambda>b. if b = ''EC KEY'' then Inr (ECDSAPrivateKey b)
              else Inl ''x509: failed to parse EC private key: asn1: syntax error''),
      CreateRevocationList =
        (\<lambda>t c k. if c = Certificate ''CERT WITHOUT CRLSIGN''
                  then Inl ''x509: issuer must have the crlSign key usage bit set''
                  else Inr (''CRL '' @ intString (Number t)))\<rparr>"

definition demoFS_noKey :: filesystem where
  \<comment> \<open>the key file is missing\<close>
  "demoFS_noKey = [(''temp'', Dir), (''tls/tls.crt'', File ''CERT'')]"

definition demoFS_noList :: filesystem where
  \<comment> \<open>there is no registry\<close>
  "demoFS_noList =
     [(''temp'', Dir), (''tls/tls.crt'', File ''CERT''), (''tls/tls.key'', File ''RSA KEY'')]"

definition demoFS_listDenied :: filesystem where
  \<comment> \<open>the registry cannot be opened\<close>
  "demoFS_listDenied = (''conf/list.txt'', NoAccess) # demoFS_noList"

definition demoFS_confIsFile :: filesystem where
  \<comment> \<open>\<open>conf\<close> is a file, not a directory\<close>
  "demoFS_confIsFile = (''conf'', File ''x'') # demoFS_noList"

definition demoFS_listFaulty :: filesystem where
  \<comment> \<open>the registry fails to read after one line and a half\<close>
  "demoFS_listFaulty =
     (''conf/list.txt'', Faulty (''1A2B:1700000000:1'' @ [CHR 0x0A] @ ''3C4D:17'') EIO) # demoFS_noList"

definition demoFS_longLine :: filesystem where
  \<comment> \<open>the registry has a valid line and then a line of 65537 bytes\<close>
  "demoFS_longLine =
     (''conf/list.txt'', File (''1A2B:1700000000:1'' @ CHR 0x0A # replicate 65537 CHR ''A''))
     # demoFS_noList"

definition demoFS_noSign :: filesystem where
  \<comment> \<open>the certificate may not sign CRLs\<close>
  "demoFS_noSign = (''tls/tls.crt'', File ''CERT WITHOUT CRLSIGN'') # demoFS"

definition demoFS_key :: "string \<Rightarrow> filesystem" where
  \<comment> \<open>the key file holds \<open>k\<close>\<close>
  "demoFS_key k = (''tls/tls.key'', File k) # demoFS"

definition demoServer :: CRLServer where
  "demoServer =
     \<lparr>crtFile = ''tls/tls.crt'', keyFile = ''tls/tls.key'', listFile = ''conf/list.txt'',
      cachedCRL = None, cacheTime = zeroTime, cacheNumber = None\<rparr>"

definition demoReading :: "int \<Rightarrow> reading" where
  \<comment> \<open>the clock \<open>n\<close> nanoseconds after 2023-11-14 22:13:20 UTC, which is Unix second 1700000000\<close>
  "demoReading n = \<lparr>wall_ns = 1700000000 * Second + n, mono_ns = 5000 + n\<rparr>"

definition demoClock :: "int \<Rightarrow> clock" where
  "demoClock n = \<lparr>atRLock = demoReading n, atLock = demoReading (n + 10),
                   atNow = demoReading (n + 20)\<rparr>"

definition demoRun :: "world list" where
  \<comment> \<open>three requests: at the start, half an hour later and one hour after the start\<close>
  "demoRun =
     [(demoX509, (\<lambda>p. None), demoClock 0, demoFS),
      (demoX509, (\<lambda>p. None), demoClock (1800 * Second), demoFS),
      (demoX509, (\<lambda>p. None), demoClock (3600 * Second + 20), demoFS)]"

definition demoNow :: "string \<Rightarrow> reading" where
  \<comment> \<open>every entry is checked 3000 seconds after Unix second 1700000000\<close>
  "demoNow name = demoReading (3000 * Second)"


definition demoFS_cache :: filesystem where
  \<comment> \<open>a fresh pair; a pair with a greater number and a timestamp of 13000 seconds ago;
      a file name that is no number; a payload without metadata; metadata that is no number\<close>
  "demoFS_cache =
     [(''temp'', Dir),
      (''temp/crl-1700000000.der'', File ''fresh''),
      (''temp/crl-1700000000.meta'', File (''1700000000'' @ [CHR 0x0A])),
      (''temp/crl-1700009999.der'', File ''stale''),
      (''temp/crl-1700009999.meta'', File (''1699990000'' @ [CHR 0x0A])),
      (''temp/crl-junk.der'', File ''junk''),
      (''temp/crl-junk.meta'', File (''1700000000'' @ [CHR 0x0A])),
      (''temp/crl-1700000001.der'', File ''no meta''),
      (''temp/crl-1600000000.der'', File ''bad meta''),
      (''temp/crl-1600000000.meta'', File ''yesterday'')]"


definition demoArtifact :: CRLServer where
  \<comment> \<open>the server after a generation 2000.000000777 seconds after Unix second 1700000000\<close>
  "demoArtifact =
     demoServer\<lparr>cachedCRL := Some ''CRL 1700002000'',
       cacheTime := time_Now (demoReading (2000 * Second + 777)),
       cacheNumber := Some 1700002000\<rparr>"

definition noFault :: "string \<Rightarrow> write_fault option" where
  "noFault p = None"

definition diskFull :: "string \<Rightarrow> write_fault option" where
  "diskFull p = Some (WriteFault ENOSPC None)"

definition metaFault :: "string \<Rightarrow> write_fault option" where
  \<comment> \<open>the payload is written; the metadata file is created and the write to it fails\<close>
  "metaFault p = (if HasSuffix p ''.meta'' then Some (WriteFault EIO (Some [])) else None)"

definition demoSaved :: filesystem where
  \<comment> \<open>the store \<open>demoFS_cache\<close> after \<open>demoArtifact\<close> is saved to it\<close>
  "demoSaved = snd (saveCachedCRL noFault demoFS_cache demoArtifact)"

definition demoFS_newer :: filesystem where
  \<comment> \<open>\<open>demoFS_cache\<close> and a pair with the number 1700002500, stamped 500 seconds
      before \<open>demoNow\<close>\<close>
  "demoFS_newer =
     demoFS_cache @
     [(''temp/crl-1700002500.der'', File ''other''),
      (''temp/crl-1700002500.meta'', File (''1700002500'' @ [CHR 0x0A]))]"

definition mentions :: "string \<Rightarrow> string \<Rightarrow> bool" where
  \<comment> \<open>the text \<open>s\<close> contains the word \<open>w\<close>\<close>
  "mentions s w = list_ex (\<lambda>i. take (length w) (drop i s) = w) [0 ..< Suc (length s)]"

definition demoRevoked :: "RevokedCert list" where
  \<comment> \<open>what the registry of \<open>demoFS\<close> holds\<close>
  "demoRevoked = [\<lparr>SerialNumber = 0x1A2B, RevocationTime = time_Unix 1700000000, Reason = 1\<rparr>]"

definition demoSchedule :: "action list" where
  \<comment> \<open>two requests find the cache stale under the read lock; the second takes the write
      lock and regenerates; a minute later the first takes the write lock\<close>
  "demoSchedule =
     [Step 0, Step 1, Step 0, Step 1, Step 1, Tick (demoReading 5),
      Step 1, Step 1, Step 1, Tick (demoReading 9),
      Step 1, Step 1, Step 1, Step 1, Step 1, Step 1,
      Tick (demoReading (60 * Second)), Step 0, Step 0]"

definition demoSchedule_noKey :: "action list" where
  \<comment> \<open>two requests find the cache stale under the read lock; the first takes the write
      lock and runs to its return, then the second does\<close>
  "demoSchedule_noKey =
     [Step 0, Step 1, Step 0, Step 1, Step 0, Step 0, Step 0, Step 1, Step 1, Step 1]"

section \<open>Properties\<close>

subsection \<open>Paths\<close>

lemma ancestorsFrom_plain: "CHR ''/'' \<notin> set n \<Longrightarrow> ancestorsFrom a n = []"
  by (induction n arbitrary: a) auto

lemma ancestorsFrom_slash:
  "CHR ''/'' \<notin> set d \<Longrightarrow>
     ancestorsFrom a (d @ CHR ''/'' # n) = (a @ d) # ancestorsFrom (a @ d @ ''/'') n"
  by (induction d arbitrary: a) auto

lemma ancestors_plain: "CHR ''/'' \<notin> set p \<Longrightarrow> ancestors p = []"
  by (simp add: ancestors_def ancestorsFrom_plain)

lemma ancestors_Join:
  "CHR ''/'' \<notin> set d \<Longrightarrow> CHR ''/'' \<notin> set n \<Longrightarrow> ancestors (filepath_Join d n) = [d]"
  by (simp add: ancestors_def filepath_Join_def ancestorsFrom_slash ancestorsFrom_plain)

lemma ancestors_demo [simp]:
  "ancestors ''tls/tls.crt'' = [''tls'']"
  "ancestors ''tls/tls.key'' = [''tls'']"
  "ancestors ''conf/list.txt'' = [''conf'']"
  by code_simp+

lemma ancestors_cacheDir: "ancestors cacheDir = []"
  by code_simp

lemma walkError_exists: "walkError fs as = Some e \<Longrightarrow> e \<noteq> ENOENT"
  by (induction as) (auto split: option.splits node.splits)

lemma os_Open_blocked:
  "walkError fs (ancestors p) = Some e \<Longrightarrow> os_Open fs p = Inl (PathError ''open'' p e)"
  by (simp add: os_Open_def)

lemma os_Open_absent:
  "walkError fs (ancestors p) = None \<Longrightarrow> map_of fs p = None \<Longrightarrow>
     os_Open fs p = Inl (PathError ''open'' p ENOENT)"
  by (simp add: os_Open_def)

subsection \<open>Decimal text and white space\<close>

lemma isDecimal_digit: "0 \<le> k \<Longrightarrow> k < 10 \<Longrightarrow> isDecimal (char_of (48 + (k::int)))"
  by (simp add: isDecimal_def)

lemma digitVal_digit: "0 \<le> k \<Longrightarrow> k < 10 \<Longrightarrow> digitVal (char_of (48 + (k::int))) = k"
  by (simp add: digitVal_def Let_def)

lemma decString_nonempty: "decString n \<noteq> []"
  by (subst decString.simps) simp

lemma decString_digits: "0 \<le> n \<Longrightarrow> c \<in> set (decString n) \<Longrightarrow> isDecimal c"
proof (induction n rule: decString.induct)
  case (1 n)
  show ?case
  proof (cases "n < 10")
    case True
    with 1 show ?thesis
      by (subst (asm) (2) decString.simps) (simp add: isDecimal_digit)
  next
    case False
    with 1 show ?thesis
      by (subst (asm) (2) decString.simps) (auto simp: isDecimal_digit)
  qed
qed

lemma digitsValue_snoc: "digitsValue b (xs @ [c]) = digitsValue b xs * b + digitVal c"
  by (simp add: digitsValue_def)

lemma digitsValue_decString: "0 \<le> n \<Longrightarrow> digitsValue 10 (decString n) = n"
proof (induction n rule: decString.induct)
  case (1 n)
  show ?case
  proof (cases "n < 10")
    case True
    with 1 show ?thesis
      by (subst decString.simps) (simp add: digitsValue_def digitVal_digit)
  next
    case False
    with 1 have "digitsValue 10 (decString (n div 10)) = n div 10" by simp
    with False 1 show ?thesis
      by (subst decString.simps) (simp add: digitsValue_snoc digitVal_digit)
  qed
qed

lemma isDecimal_not_sign: "isDecimal c \<Longrightarrow> c \<noteq> CHR ''-'' \<and> c \<noteq> CHR ''+''"
  by (auto simp: isDecimal_def)

lemma scanSign_digits:
  "ds \<noteq> [] \<Longrightarrow> \<forall>c \<in> set ds. isDecimal c \<Longrightarrow> scanSign ds = (False, ds)"
  by (cases ds) (auto simp: scanSign_def dest: isDecimal_not_sign)

lemma scanSign_intString:
  "scanSign (intString i) = (i < 0, decString (if i < 0 then - i else i))"
  using scanSign_digits [of "decString i"] decString_digits [of i] decString_nonempty [of i]
  by (auto simp: intString_def scanSign_def)

lemma isDecimal_digitVal: "isDecimal c \<Longrightarrow> digitVal c < 10"
  by (auto simp: isDecimal_def digitVal_def Let_def)

lemma SetString_intString: "SetString (intString i) 10 = Some i"
proof -
  let ?a = "if i < 0 then - i else i"
  have a: "0 \<le> ?a" by simp
  have d: "\<not> (\<exists>c \<in> set (decString ?a). 10 \<le> digitVal c)"
    using decString_digits [OF a] isDecimal_digitVal by fastforce
  show ?thesis
    using d decString_nonempty [of ?a] digitsValue_decString [OF a]
    by (cases "i < 0") (simp_all add: SetString_def scanSign_intString)
qed

lemma ParseInt_intString:
  "- (2 ^ 63) \<le> i \<Longrightarrow> i < 2 ^ 63 \<Longrightarrow> ParseInt (intString i) = Some i"
proof -
  assume r: "- (2 ^ 63) \<le> i" "i < 2 ^ 63"
  let ?a = "if i < 0 then - i else i"
  have a: "0 \<le> ?a" by simp
  have d: "\<forall>c \<in> set (decString ?a). isDecimal c"
    using decString_digits [OF a] by blast
  show ?thesis
    using r d decString_nonempty [of ?a] digitsValue_decString [OF a]
    by (auto simp: ParseInt_def scanSign_intString Let_def)
qed

lemma spaceRunes_ends:
  "r \<in> set spaceRunes \<Longrightarrow> r \<noteq> [] \<and> \<not> plainByte (hd r) \<and> \<not> plainByte (last r)"
  unfolding spaceRunes_def plainByte_def by (elim disjE | simp)+

lemma HasPrefix_hd: "HasPrefix (c # cs) r \<Longrightarrow> r \<noteq> [] \<Longrightarrow> hd r = c"
  by (cases r) (auto simp: HasPrefix_def)

lemma HasSuffix_last: "HasSuffix (cs @ [c]) r \<Longrightarrow> r \<noteq> [] \<Longrightarrow> last r = c"
  by (metis HasSuffix_def append_take_drop_id last_appendR last_snoc)

lemma leadingSpace_plain: "plainByte c \<Longrightarrow> leadingSpace (c # cs) = 0"
proof -
  assume p: "plainByte c"
  have "filter (HasPrefix (c # cs)) spaceRunes = []"
    using p spaceRunes_ends HasPrefix_hd by (fastforce simp: filter_empty_conv)
  then show ?thesis by (simp add: leadingSpace_def)
qed

lemma trailingSpace_plain: "plainByte c \<Longrightarrow> trailingSpace (cs @ [c]) = 0"
proof -
  assume p: "plainByte c"
  have "filter (HasSuffix (cs @ [c])) spaceRunes = []"
    using p spaceRunes_ends HasSuffix_last by (fastforce simp: filter_empty_conv)
  then show ?thesis by (simp add: trailingSpace_def)
qed

lemma HasSuffix_snoc: "HasSuffix (cs @ [c]) [d] = (c = d)"
  by (simp add: HasSuffix_def)

lemma trailingSpace_newline: "trailingSpace (cs @ [CHR 0x0A]) = 1"
  by (simp add: trailingSpace_def spaceRunes_def HasSuffix_snoc)

lemma TrimSpace_plain_newline:
  assumes "s \<noteq> []" "plainByte (hd s)" "plainByte (last s)"
  shows "TrimSpace (s @ [CHR 0x0A]) = s"
proof -
  obtain c cs where s: "s = c # cs" using assms(1) by (cases s) auto
  obtain d ds where s': "s = ds @ [d]" using assms(1) by (cases s rule: rev_cases) auto
  have l: "TrimLeftSpace (s @ [CHR 0x0A]) = s @ [CHR 0x0A]"
    using assms(2) s by (subst TrimLeftSpace.simps) (simp add: leadingSpace_plain)
  have r1: "TrimRightSpace (s @ [CHR 0x0A]) = TrimRightSpace s"
    by (subst TrimRightSpace.simps) (simp add: trailingSpace_newline)
  have r2: "TrimRightSpace s = s"
    using assms(3) s' by (subst TrimRightSpace.simps) (simp add: trailingSpace_plain)
  show ?thesis by (simp add: TrimSpace_def l r1 r2)
qed

lemma isDecimal_plain: "isDecimal c \<Longrightarrow> plainByte c"
  by (simp add: isDecimal_def plainByte_def)

lemma minus_plain: "plainByte CHR ''-''"
  by (simp add: plainByte_def)

lemma intString_plain: "c \<in> set (intString i) \<Longrightarrow> plainByte c"
  using decString_digits [of "- i" c] decString_digits [of i c]
  by (auto simp: intString_def isDecimal_plain minus_plain split: if_splits)

lemma intString_nonempty: "intString i \<noteq> []"
  by (simp add: intString_def decString_nonempty)

lemma TrimSpace_intString: "TrimSpace (intString i @ [CHR 0x0A]) = intString i"
  using intString_nonempty [of i] intString_plain [of _ i]
  by (intro TrimSpace_plain_newline) (auto intro: hd_in_set last_in_set)

subsection \<open>Regeneration that fails\<close>

lemma getCRL_error_keeps:
  "fst (getCRL X flt clk fs s) = Inl e \<Longrightarrow>
     fst (snd (getCRL X flt clk fs s)) = s \<and> fst (snd (snd (getCRL X flt clk fs s))) = fs"
  by (auto simp: getCRL_def Let_def split: if_splits sum.splits prod.splits option.splits)

text \<open>
  C3. When a regeneration is triggered (the cache is not valid at either check) and a step
  fails, \<open>getCRL\<close> returns an error and the server is what it was: a failure to load the
  certificate and key, a failure to load the registry, and a failure of the CRL encoder
  each return their error with \<open>cachedCRL\<close>, \<open>cacheTime\<close> and \<open>cacheNumber\<close> as before.
  Moreover no call of \<open>getCRL\<close> that returns an error changes the server or writes a file.
\<close>

theorem C3_failed_regeneration_keeps_cache:
  assumes "\<not> cacheValid s (atRLock clk)" and "\<not> cacheValid s (atLock clk)"
  shows "(\<forall>e. loadCertAndKey X fs (crtFile s) (keyFile s) = Inl e \<longrightarrow>
            getCRL X flt clk fs s =
              (Inl (''loading certificate and key: '' @ e), s, fs, [LoadingCertAndKey]))
       \<and> (\<forall>c k w e. loadCertAndKey X fs (crtFile s) (keyFile s) = Inr (c, k) \<longrightarrow>
            loadRevokedCertificates fs s = (w, Inl e) \<longrightarrow>
            getCRL X flt clk fs s =
              (Inl (''loading revoked certificates: '' @ e), s, fs,
               [LoadingCertAndKey, LoadingRevocationList] @ w))
       \<and> (\<forall>c k w rcs e. loadCertAndKey X fs (crtFile s) (keyFile s) = Inr (c, k) \<longrightarrow>
            loadRevokedCertificates fs s = (w, Inr rcs) \<longrightarrow>
            CreateRevocationList X (crlTemplate (time_Now (atNow clk)) rcs) c k = Inl e \<longrightarrow>
            getCRL X flt clk fs s =
              (Inl (''creating CRL: '' @ e), s, fs,
               [LoadingCertAndKey, LoadingRevocationList] @ w @ [LoadedRevoked (length rcs)]))
       \<and> (\<forall>e. fst (getCRL X flt clk fs s) = Inl e \<longrightarrow>
            fst (snd (getCRL X flt clk fs s)) = s \<and> fst (snd (snd (getCRL X flt clk fs s))) = fs)"
proof (intro conjI allI impI)
  fix e assume "loadCertAndKey X fs (crtFile s) (keyFile s) = Inl e"
  with assms show "getCRL X flt clk fs s =
      (Inl (''loading certificate and key: '' @ e), s, fs, [LoadingCertAndKey])"
    by (simp add: getCRL_def)
next
  fix c k w e
  assume "loadCertAndKey X fs (crtFile s) (keyFile s) = Inr (c, k)"
    and "loadRevokedCertificates fs s = (w, Inl e)"
  with assms show "getCRL X flt clk fs s =
      (Inl (''loading revoked certificates: '' @ e), s, fs,
       [LoadingCertAndKey, LoadingRevocationList] @ w)"
    by (simp add: getCRL_def)
next
  fix c k w rcs e
  assume "loadCertAndKey X fs (crtFile s) (keyFile s) = Inr (c, k)"
    and "loadRevokedCertificates fs s = (w, Inr rcs)"
    and "CreateRevocationList X (crlTemplate (time_Now (atNow clk)) rcs) c k = Inl e"
  with assms show "getCRL X flt clk fs s =
      (Inl (''creating CRL: '' @ e), s, fs,
       [LoadingCertAndKey, LoadingRevocationList] @ w @ [LoadedRevoked (length rcs)])"
    by (simp add: getCRL_def Let_def)
next
  fix e assume "fst (getCRL X flt clk fs s) = Inl e"
  then show "fst (snd (getCRL X flt clk fs s)) = s" by (simp add: getCRL_error_keeps)
next
  fix e assume "fst (getCRL X flt clk fs s) = Inl e"
  then show "fst (snd (snd (getCRL X flt clk fs s))) = fs" by (simp add: getCRL_error_keeps)
qed


lemma demo_stale: "\<not> cacheValid demoServer r"
  by (simp add: cacheValid_def demoServer_def)

theorem C3_witness:
  "getCRL demoX509 noFault (demoClock 0) demoFS_noKey demoServer =
     (Inl ''loading certificate and key: reading key file: open tls/tls.key: no such file or directory'',
      demoServer, demoFS_noKey, [LoadingCertAndKey])
   \<and> getCRL demoX509 noFault (demoClock 0) demoFS_listDenied demoServer =
     (Inl ''loading revoked certificates: opening file: open conf/list.txt: permission denied'',
      demoServer, demoFS_listDenied, [LoadingCertAndKey, LoadingRevocationList])
   \<and> getCRL demoX509 noFault (demoClock 0) demoFS_noSign demoServer =
     (Inl ''creating CRL: x509: issuer must have the crlSign key usage bit set'',
      demoServer, demoFS_noSign,
      [LoadingCertAndKey, LoadingRevocationList, WarnInvalidSerial 1 ''BADHEX'', LoadedRevoked 1])"
proof -
  note T = C3_failed_regeneration_keeps_cache [OF demo_stale demo_stale]
  have a: "loadCertAndKey demoX509 demoFS_noKey (crtFile demoServer) (keyFile demoServer) =
      Inl ''reading key file: open tls/tls.key: no such file or directory''"
    by code_simp
  have b1: "loadCertAndKey demoX509 demoFS_listDenied (crtFile demoServer) (keyFile demoServer) =
      Inr (Certificate ''CERT'', RSAPrivateKey ''RSA KEY'')"
    by code_simp
  have b2: "loadRevokedCertificates demoFS_listDenied demoServer =
      ([], Inl ''opening file: open conf/list.txt: permission denied'')"
    by code_simp
  have c1: "loadCertAndKey demoX509 demoFS_noSign (crtFile demoServer) (keyFile demoServer) =
      Inr (Certificate ''CERT WITHOUT CRLSIGN'', RSAPrivateKey ''RSA KEY'')"
    by code_simp
  have c2: "loadRevokedCertificates demoFS_noSign demoServer =
      ([WarnInvalidSerial 1 ''BADHEX''],
       Inr [\<lparr>SerialNumber = 0x1A2B, RevocationTime = time_Unix 1700000000, Reason = 1\<rparr>])"
    by code_simp
  have c3: "CreateRevocationList demoX509
       (crlTemplate (time_Now (atNow (demoClock 0)))
          [\<lparr>SerialNumber = 0x1A2B, RevocationTime = time_Unix 1700000000, Reason = 1\<rparr>])
       (Certificate ''CERT WITHOUT CRLSIGN'') (RSAPrivateKey ''RSA KEY'') =
      Inl ''x509: issuer must have the crlSign key usage bit set''"
    by code_simp
  from T [THEN conjunct1, rule_format, OF a]
    T [THEN conjunct2, THEN conjunct1, rule_format, OF b1 b2]
    T [THEN conjunct2, THEN conjunct2, THEN conjunct1, rule_format, OF c1 c2 c3]
  show ?thesis by simp
qed

subsection \<open>Persistence that fails\<close>

text \<open>
  C9. When a regeneration succeeds (certificate, key and registry load and the encoder
  returns a CRL), \<open>getCRL\<close> returns the new CRL with no error whatever happens to the two
  writes of \<open>saveCachedCRL\<close>: for every fault \<open>flt\<close> of the disk, the result is the new
  bytes, the server holds the new artifact, the artifact saved is the one just installed,
  and a failure of the save only adds a warning to the log.
\<close>

theorem C9_persistence_failure_is_not_an_error:
  assumes "\<not> cacheValid s (atRLock clk)" and "\<not> cacheValid s (atLock clk)"
    and "loadCertAndKey X fs (crtFile s) (keyFile s) = Inr (c, k)"
    and "loadRevokedCertificates fs s = (w, Inr rcs)"
    and "CreateRevocationList X (crlTemplate (time_Now (atNow clk)) rcs) c k = Inr crl"
  shows "fst (getCRL X flt clk fs s) = Inr crl
       \<and> fst (snd (getCRL X flt clk fs s)) =
           s\<lparr>cachedCRL := Some crl, cacheTime := time_Now (atNow clk),
              cacheNumber := Some (Unix (time_Now (atNow clk)))\<rparr>
       \<and> fst (snd (snd (getCRL X flt clk fs s))) =
           snd (saveCachedCRL flt fs (fst (snd (getCRL X flt clk fs s))))
       \<and> (\<forall>err. fst (saveCachedCRL flt fs (fst (snd (getCRL X flt clk fs s)))) = Some err \<longrightarrow>
             WarnSaveFailed (Error err) \<in> set (snd (snd (snd (getCRL X flt clk fs s)))))"
  using assms by (simp add: getCRL_def Let_def split: prod.splits option.splits)

theorem C9_witness:
  "fst (getCRL demoX509 diskFull (demoClock 0) demoFS demoServer) = Inr ''CRL 1700000000''
   \<and> fst (saveCachedCRL diskFull demoFS
            (fst (snd (getCRL demoX509 diskFull (demoClock 0) demoFS demoServer)))) =
       Some (PathError ''write'' ''temp/crl-1700000000.der'' ENOSPC)
   \<and> fst (getCRL demoX509 metaFault (demoClock 0) demoFS demoServer) = Inr ''CRL 1700000000''
   \<and> fst (saveCachedCRL metaFault demoFS
            (fst (snd (getCRL demoX509 metaFault (demoClock 0) demoFS demoServer)))) =
       Some (PathError ''write'' ''temp/crl-1700000000.meta'' EIO)"
proof -
  have a: "loadCertAndKey demoX509 demoFS (crtFile demoServer) (keyFile demoServer) =
      Inr (Certificate ''CERT'', RSAPrivateKey ''RSA KEY'')"
    by code_simp
  have b: "loadRevokedCertificates demoFS demoServer =
      ([WarnInvalidSerial 1 ''BADHEX''],
       Inr [\<lparr>SerialNumber = 0x1A2B, RevocationTime = time_Unix 1700000000, Reason = 1\<rparr>])"
    by code_simp
  have c: "CreateRevocationList demoX509
       (crlTemplate (time_Now (atNow (demoClock 0)))
          [\<lparr>SerialNumber = 0x1A2B, RevocationTime = time_Unix 1700000000, Reason = 1\<rparr>])
       (Certificate ''CERT'') (RSAPrivateKey ''RSA KEY'') = Inr ''CRL 1700000000''"
    by code_simp
  note T = C9_persistence_failure_is_not_an_error [OF demo_stale demo_stale a b c]
  have d: "fst (saveCachedCRL diskFull demoFS
      (demoServer\<lparr>cachedCRL := Some ''CRL 1700000000'',
         cacheTime := time_Now (atNow (demoClock 0)),
         cacheNumber := Some (Unix (time_Now (atNow (demoClock 0))))\<rparr>)) =
      Some (PathError ''write'' ''temp/crl-1700000000.der'' ENOSPC)"
    by code_simp
  have e: "fst (saveCachedCRL metaFault demoFS
      (demoServer\<lparr>cachedCRL := Some ''CRL 1700000000'',
         cacheTime := time_Now (atNow (demoClock 0)),
         cacheNumber := Some (Unix (time_Now (atNow (demoClock 0))))\<rparr>)) =
      Some (PathError ''write'' ''temp/crl-1700000000.meta'' EIO)"
    by code_simp
  from T [of diskFull] T [of metaFault] d e show ?thesis by simp
qed

subsection \<open>The registry file is absent or unreadable\<close>

text \<open>
  C7. If the registry file does not exist (\<open>os.Open\<close> fails and \<open>os.IsNotExist\<close> holds
  of the error, as when the path is not bound and the walk to it meets no file),
  \<open>loadRevokedCertificates\<close> returns the empty list and no error. If it cannot be opened
  for another reason (as when an ancestor of the path is a file, or may not be opened),
  or it opens and the reading ends with an error, the function returns an error; and a
  regeneration that gets this error returns it from \<open>getCRL\<close>, leaving the server as it
  was.
\<close>

theorem C7_registry_absent_or_unreadable:
  "(\<forall>err. os_Open fs (listFile s) = Inl err \<longrightarrow> IsNotExist err \<longrightarrow>
       loadRevokedCertificates fs s = ([], Inr []))
   \<and> (\<forall>err. os_Open fs (listFile s) = Inl err \<longrightarrow> \<not> IsNotExist err \<longrightarrow>
       loadRevokedCertificates fs s = ([], Inl (''opening file: '' @ Error err)))
   \<and> (\<forall>bytes e. os_Open fs (listFile s) = Inr (bytes, Some e) \<longrightarrow>
       (\<exists>msg. snd (loadRevokedCertificates fs s) = Inl (''reading file: '' @ msg)))
   \<and> (map_of fs (listFile s) = None \<longrightarrow> walkError fs (ancestors (listFile s)) = None \<longrightarrow>
         loadRevokedCertificates fs s = ([], Inr []))
   \<and> (\<forall>e. walkError fs (ancestors (listFile s)) = Some e \<longrightarrow>
         loadRevokedCertificates fs s =
           ([], Inl (''opening file: open '' @ listFile s @ '': '' @ errnoText e)))
   \<and> (\<forall>c k w e. snd (loadRevokedCertificates fs s) = Inl e \<longrightarrow>
         \<not> cacheValid s (atRLock clk) \<longrightarrow> \<not> cacheValid s (atLock clk) \<longrightarrow>
         loadCertAndKey X fs (crtFile s) (keyFile s) = Inr (c, k) \<longrightarrow>
         fst (getCRL X flt clk fs s) = Inl (''loading revoked certificates: '' @ e)
         \<and> fst (snd (getCRL X flt clk fs s)) = s)"
proof (intro conjI allI impI)
  fix err assume "os_Open fs (listFile s) = Inl err" "IsNotExist err"
  then show "loadRevokedCertificates fs s = ([], Inr [])"
    by (simp add: loadRevokedCertificates_def)
next
  fix err assume "os_Open fs (listFile s) = Inl err" "\<not> IsNotExist err"
  then show "loadRevokedCertificates fs s = ([], Inl (''opening file: '' @ Error err))"
    by (simp add: loadRevokedCertificates_def)
next
  fix bytes e assume "os_Open fs (listFile s) = Inr (bytes, Some e)"
  then show "\<exists>msg. snd (loadRevokedCertificates fs s) = Inl (''reading file: '' @ msg)"
    by (simp add: loadRevokedCertificates_def Scanner_def split: prod.splits)
next
  assume "map_of fs (listFile s) = None" "walkError fs (ancestors (listFile s)) = None"
  then show "loadRevokedCertificates fs s = ([], Inr [])"
    by (simp add: loadRevokedCertificates_def os_Open_absent)
next
  fix e assume w: "walkError fs (ancestors (listFile s)) = Some e"
  then have "e \<noteq> ENOENT" by (rule walkError_exists)
  with w show "loadRevokedCertificates fs s =
      ([], Inl (''opening file: open '' @ listFile s @ '': '' @ errnoText e))"
    by (simp add: loadRevokedCertificates_def os_Open_blocked)
next
  fix c k w e
  assume "snd (loadRevokedCertificates fs s) = Inl e" "\<not> cacheValid s (atRLock clk)"
    "\<not> cacheValid s (atLock clk)" "loadCertAndKey X fs (crtFile s) (keyFile s) = Inr (c, k)"
  then show "fst (getCRL X flt clk fs s) = Inl (''loading revoked certificates: '' @ e)"
    by (cases "loadRevokedCertificates fs s") (simp add: getCRL_def)
next
  fix c k w e
  assume "snd (loadRevokedCertificates fs s) = Inl e" "\<not> cacheValid s (atRLock clk)"
    "\<not> cacheValid s (atLock clk)" "loadCertAndKey X fs (crtFile s) (keyFile s) = Inr (c, k)"
  then show "fst (snd (getCRL X flt clk fs s)) = s"
    by (cases "loadRevokedCertificates fs s") (simp add: getCRL_def)
qed

theorem C7_witness:
  "loadRevokedCertificates demoFS_noList demoServer = ([], Inr [])
   \<and> loadRevokedCertificates demoFS_confIsFile demoServer =
       ([], Inl ''opening file: open conf/list.txt: not a directory'')
   \<and> loadRevokedCertificates demoFS_listDenied demoServer =
       ([], Inl ''opening file: open conf/list.txt: permission denied'')
   \<and> snd (loadRevokedCertificates demoFS_listFaulty demoServer) =
       Inl ''reading file: read conf/list.txt: input/output error''
   \<and> fst (getCRL demoX509 noFault (demoClock 0) demoFS_listFaulty demoServer) =
       Inl ''loading revoked certificates: reading file: read conf/list.txt: input/output error''
   \<and> fst (snd (getCRL demoX509 noFault (demoClock 0) demoFS_listFaulty demoServer)) = demoServer"
proof -
  have a: "map_of demoFS_noList (listFile demoServer) = None" by code_simp
  have a': "walkError demoFS_noList (ancestors (listFile demoServer)) = None" by code_simp
  have n: "walkError demoFS_confIsFile (ancestors (listFile demoServer)) = Some ENOTDIR"
    by code_simp
  have n': "listFile demoServer = ''conf/list.txt''" by (simp add: demoServer_def)
  have b: "os_Open demoFS_listDenied (listFile demoServer) =
      Inl (PathError ''open'' ''conf/list.txt'' EACCES)"
    by code_simp
  have b': "\<not> IsNotExist (PathError ''open'' ''conf/list.txt'' EACCES)" by simp
  have c: "snd (loadRevokedCertificates demoFS_listFaulty demoServer) =
      Inl ''reading file: read conf/list.txt: input/output error''"
    by code_simp
  have d: "loadCertAndKey demoX509 demoFS_listFaulty (crtFile demoServer) (keyFile demoServer) =
      Inr (Certificate ''CERT'', RSAPrivateKey ''RSA KEY'')"
    by code_simp
  note T = C7_registry_absent_or_unreadable
  from T [of demoFS_noList demoServer, THEN conjunct2, THEN conjunct2, THEN conjunct2,
       THEN conjunct1, rule_format, OF a a']
    T [of demoFS_confIsFile demoServer, THEN conjunct2, THEN conjunct2, THEN conjunct2,
       THEN conjunct2, THEN conjunct1, rule_format, OF n, unfolded n']
    T [of demoFS_listDenied demoServer, THEN conjunct2, THEN conjunct1, rule_format, OF b b']
    T [of demoFS_listFaulty demoServer "demoClock 0" demoX509 noFault, THEN conjunct2,
       THEN conjunct2, THEN conjunct2, THEN conjunct2, THEN conjunct2, rule_format,
       OF c demo_stale demo_stale d]
    c
  show ?thesis by simp
qed

subsection \<open>The private key is decoded as PKCS#8, then PKCS#1, then EC\<close>

text \<open>
  C8, as the code has it. With a readable certificate and a key file that holds a PEM
  block, the decoders are called in the order PKCS#8, PKCS#1, EC and the first key that
  parses is taken; later decoders are not called. The key taken is returned when it is a
  \<open>crypto.Signer\<close>; when it is not, the function fails with
  \<open>key does not implement crypto.Signer\<close>. When all three decoders fail the error is
  \<open>parsing key:\<close> followed by the error of the EC decoder alone.
\<close>

theorem C8_key_decoding_order:
  assumes "os_ReadFile fs crt = Inr certData" and "pem_Decode X certData = Some certBlock"
    and "ParseCertificate X certBlock = Inr caCert"
    and "os_ReadFile fs key = Inr keyData" and "pem_Decode X keyData = Some block"
  shows "(\<forall>k. ParsePKCS8PrivateKey X block = Inr k \<longrightarrow>
            fst (parsePrivateKey X block) = [PKCS8]
            \<and> loadCertAndKey X fs crt key =
                (if isSigner k then Inr (caCert, k) else Inl ''key does not implement crypto.Signer''))
       \<and> (\<forall>e8 k. ParsePKCS8PrivateKey X block = Inl e8 \<longrightarrow>
            ParsePKCS1PrivateKey X block = Inr k \<longrightarrow>
            fst (parsePrivateKey X block) = [PKCS8, PKCS1]
            \<and> loadCertAndKey X fs crt key =
                (if isSigner k then Inr (caCert, k) else Inl ''key does not implement crypto.Signer''))
       \<and> (\<forall>e8 e1 k. ParsePKCS8PrivateKey X block = Inl e8 \<longrightarrow>
            ParsePKCS1PrivateKey X block = Inl e1 \<longrightarrow>
            ParseECPrivateKey X block = Inr k \<longrightarrow>
            fst (parsePrivateKey X block) = [PKCS8, PKCS1, EC]
            \<and> loadCertAndKey X fs crt key =
                (if isSigner k then Inr (caCert, k) else Inl ''key does not implement crypto.Signer''))
       \<and> (\<forall>e8 e1 e. ParsePKCS8PrivateKey X block = Inl e8 \<longrightarrow>
            ParsePKCS1PrivateKey X block = Inl e1 \<longrightarrow>
            ParseECPrivateKey X block = Inl e \<longrightarrow>
            fst (parsePrivateKey X block) = [PKCS8, PKCS1, EC]
            \<and> loadCertAndKey X fs crt key = Inl (''parsing key: '' @ e))"
  using assms by (simp add: loadCertAndKey_def parsePrivateKey_def)

text \<open>
  The specification says that the error after three failures states which formats
  were attempted. For a key file that no decoder accepts, the three decoders are called
  and the error names the EC format only: it mentions neither PKCS#8 nor PKCS#1.
\<close>

theorem C8_counterexample:
  "fst (parsePrivateKey demoX509 ''GARBAGE'') = [PKCS8, PKCS1, EC]
   \<and> loadCertAndKey demoX509 (demoFS_key ''GARBAGE'') ''tls/tls.crt'' ''tls/tls.key'' =
       Inl ''parsing key: x509: failed to parse EC private key: asn1: syntax error''
   \<and> \<not> mentions ''parsing key: x509: failed to parse EC private key: asn1: syntax error'' ''PKCS8''
   \<and> \<not> mentions ''parsing key: x509: failed to parse EC private key: asn1: syntax error'' ''PKCS1''"
  by code_simp

theorem C8_witness:
  "loadCertAndKey demoX509 (demoFS_key ''X25519 KEY'') ''tls/tls.crt'' ''tls/tls.key'' =
       Inl ''key does not implement crypto.Signer''
   \<and> loadCertAndKey demoX509 (demoFS_key ''RSA KEY'') ''tls/tls.crt'' ''tls/tls.key'' =
       Inr (Certificate ''CERT'', RSAPrivateKey ''RSA KEY'')
   \<and> loadCertAndKey demoX509 (demoFS_key ''EC KEY'') ''tls/tls.crt'' ''tls/tls.key'' =
       Inr (Certificate ''CERT'', ECDSAPrivateKey ''EC KEY'')
   \<and> loadCertAndKey demoX509 (demoFS_key ''GARBAGE'') ''tls/tls.crt'' ''tls/tls.key'' =
       Inl ''parsing key: x509: failed to parse EC private key: asn1: syntax error''"
proof -
  have r: "os_ReadFile (demoFS_key k) ''tls/tls.crt'' = Inr ''CERT''"
    "os_ReadFile (demoFS_key k) ''tls/tls.key'' = Inr k" for k
    by (simp_all add: demoFS_key_def demoFS_def os_ReadFile_def os_Open_def)
  have p: "pem_Decode demoX509 ''CERT'' = Some ''CERT''"
    "ParseCertificate demoX509 ''CERT'' = Inr (Certificate ''CERT'')"
    by (simp_all add: demoX509_def)
  have d: "pem_Decode demoX509 ''X25519 KEY'' = Some ''X25519 KEY''"
    "pem_Decode demoX509 ''RSA KEY'' = Some ''RSA KEY''"
    "pem_Decode demoX509 ''EC KEY'' = Some ''EC KEY''"
    "pem_Decode demoX509 ''GARBAGE'' = Some ''GARBAGE''"
    by (simp_all add: demoX509_def)
  note T = C8_key_decoding_order [OF r(1) p r(2)]
  have k1: "ParsePKCS8PrivateKey demoX509 ''X25519 KEY'' = Inr (ECDHPrivateKey ''X25519 KEY'')"
    by (simp add: demoX509_def)
  have k2: "ParsePKCS8PrivateKey demoX509 ''RSA KEY'' = Inl ''asn1: structure error: tags don't match''"
    "ParsePKCS1PrivateKey demoX509 ''RSA KEY'' = Inr (RSAPrivateKey ''RSA KEY'')"
    by (simp_all add: demoX509_def)
  have k3: "ParsePKCS8PrivateKey demoX509 ''EC KEY'' = Inl ''asn1: structure error: tags don't match''"
    "ParsePKCS1PrivateKey demoX509 ''EC KEY'' = Inl ''asn1: syntax error: truncated tag or length''"
    "ParseECPrivateKey demoX509 ''EC KEY'' = Inr (ECDSAPrivateKey ''EC KEY'')"
    by (simp_all add: demoX509_def)
  have k4: "ParsePKCS8PrivateKey demoX509 ''GARBAGE'' = Inl ''asn1: structure error: tags don't match''"
    "ParsePKCS1PrivateKey demoX509 ''GARBAGE'' = Inl ''asn1: syntax error: truncated tag or length''"
    "ParseECPrivateKey demoX509 ''GARBAGE'' = Inl ''x509: failed to parse EC private key: asn1: syntax error''"
    by (simp_all add: demoX509_def)
  from T [OF d(1), THEN conjunct1, rule_format, OF k1]
    T [OF d(2), THEN conjunct2, THEN conjunct1, rule_format, OF k2]
    T [OF d(3), THEN conjunct2, THEN conjunct2, THEN conjunct1, rule_format, OF k3]
    T [OF d(4), THEN conjunct2, THEN conjunct2, THEN conjunct2, rule_format, OF k4]
  show ?thesis by simp
qed

subsection \<open>The registry loader\<close>








lemma scanTokens_long:
  "l \<in> set ls \<Longrightarrow> int (length l) \<ge> MaxScanTokenSize \<Longrightarrow> snd (scanTokens ls)"
  by (induction ls) (auto split: prod.splits)


lemma Split_nonempty: "Split s c \<noteq> []"
  by (induction s) (auto split: list.splits)

lemma Split_no_sep: "c \<notin> set s \<Longrightarrow> Split s c = [s]"
  by (induction s) auto

lemma Split_at_sep: "c \<notin> set a \<Longrightarrow> Split (a @ c # b) c = a # Split b c"
  by (induction a) (auto split: list.splits simp: Split_nonempty)


lemma load_too_long:
  assumes "os_Open fs (listFile s) = Inr (bytes, rerr)"
    and "l \<in> set (rawLines bytes)" and "int (length l) \<ge> MaxScanTokenSize"
  shows "snd (loadRevokedCertificates fs s) = Inl ''reading file: bufio.Scanner: token too long''"
proof -
  have "snd (scanTokens (rawLines bytes))"
    using assms(2,3) by (rule scanTokens_long)
  with assms(1) show ?thesis
    by (auto simp: loadRevokedCertificates_def Scanner_def split: prod.splits)
qed

lemma rawLines_long_line:
  "CHR 0x0A \<notin> set a \<Longrightarrow> CHR 0x0A \<notin> set l \<Longrightarrow> l \<noteq> [] \<Longrightarrow> l \<in> set (rawLines (a @ CHR 0x0A # l))"
  by (simp add: rawLines_def Split_at_sep Split_no_sep)



text \<open>
  C10. Per-line tolerance has a limit: when the registry has a line longer than the
  scanner's maximum token size of 64 KiB, the loader returns the error
  \<open>bufio.Scanner: token too long\<close> for the whole load, and a regeneration that runs into
  it returns an error and leaves the server as it was. It does so even when the other
  lines are valid.
\<close>

theorem C10_long_line_aborts_load:
  assumes "os_Open fs (listFile s) = Inr (bytes, rerr)"
    and "l \<in> set (rawLines bytes)" and "int (length l) > MaxScanTokenSize"
  shows "snd (loadRevokedCertificates fs s) = Inl ''reading file: bufio.Scanner: token too long''
       \<and> (\<forall>c k. \<not> cacheValid s (atRLock clk) \<longrightarrow> \<not> cacheValid s (atLock clk) \<longrightarrow>
             loadCertAndKey X fs (crtFile s) (keyFile s) = Inr (c, k) \<longrightarrow>
             fst (getCRL X flt clk fs s) =
               Inl ''loading revoked certificates: reading file: bufio.Scanner: token too long''
             \<and> fst (snd (getCRL X flt clk fs s)) = s)"
proof -
  have e: "snd (loadRevokedCertificates fs s) = Inl ''reading file: bufio.Scanner: token too long''"
    using assms by (intro load_too_long [of fs s bytes rerr l]) simp_all
  then obtain w where w: "loadRevokedCertificates fs s =
      (w, Inl ''reading file: bufio.Scanner: token too long'')"
    by (cases "loadRevokedCertificates fs s") simp
  show ?thesis using e w by (simp add: getCRL_def)
qed

theorem C10_witness:
  "snd (loadRevokedCertificates demoFS_longLine demoServer) =
     Inl ''reading file: bufio.Scanner: token too long''
   \<and> fst (getCRL demoX509 noFault (demoClock 0) demoFS_longLine demoServer) =
       Inl ''loading revoked certificates: reading file: bufio.Scanner: token too long''
   \<and> fst (snd (getCRL demoX509 noFault (demoClock 0) demoFS_longLine demoServer)) = demoServer"
proof -
  have a: "os_Open demoFS_longLine (listFile demoServer) =
      Inr (''1A2B:1700000000:1'' @ CHR 0x0A # replicate 65537 CHR ''A'', None)"
    by (simp add: os_Open_def demoFS_longLine_def demoFS_noList_def demoServer_def)
  have b: "replicate 65537 CHR ''A'' \<in>
      set (rawLines (''1A2B:1700000000:1'' @ CHR 0x0A # replicate 65537 CHR ''A''))"
    by (rule rawLines_long_line) simp_all
  have c: "int (length (replicate 65537 CHR ''A'')) > MaxScanTokenSize"
    by (simp add: MaxScanTokenSize_def)
  have d: "loadCertAndKey demoX509 demoFS_longLine (crtFile demoServer) (keyFile demoServer) =
      Inr (Certificate ''CERT'', RSAPrivateKey ''RSA KEY'')"
    by (simp add: loadCertAndKey_def parsePrivateKey_def os_ReadFile_def os_Open_def
        demoFS_longLine_def demoFS_noList_def demoServer_def demoX509_def)
  note T = C10_long_line_aborts_load [OF a b c, of "demoClock 0" demoX509 noFault]
  from T [THEN conjunct1] T [THEN conjunct2, rule_format, OF demo_stale demo_stale d]
  show ?thesis by simp
qed

subsection \<open>Numbers of successive artifacts\<close>

lemma wrap64_id: "- (2 ^ 63) \<le> x \<Longrightarrow> x < 2 ^ 63 \<Longrightarrow> wrap64 x = x"
  by (simp add: wrap64_def)

lemma Unix_time_Now: "validReading r \<Longrightarrow> Unix (time_Now r) = wall_ns r div Second"
proof -
  assume "validReading r"
  then have "- (2 ^ 63) \<le> wall_ns r div 1000000000" "wall_ns r div 1000000000 < 2 ^ 63"
    unfolding validReading_def by simp_all linarith+
  then show ?thesis
    by (simp add: Unix_def time_Now_def Second_def wrap64_id)
qed

lemma sat64_less: "k \<le> maxDuration \<Longrightarrow> minDuration < k \<Longrightarrow> sat64 x < k \<longleftrightarrow> x < k"
  by (auto simp: sat64_def)

lemma wall_split: "(w div Second) * Second + w mod Second = w"
  by (simp add: Second_def)

lemma Since_Now:
  "time_Since r (time_Now r0) =
     sat64 (if hasMonotonic r0 then mono_ns r - mono_ns r0 else wall_ns r - wall_ns r0)"
proof (cases "hasMonotonic r0")
  case True
  then show ?thesis by (simp add: time_Since_def time_Now_def)
next
  case False
  have "(wall_ns r div Second - wall_ns r0 div Second) * Second
        + (wall_ns r mod Second - wall_ns r0 mod Second) = wall_ns r - wall_ns r0"
    using wall_split [of "wall_ns r"] wall_split [of "wall_ns r0"] by (simp add: algebra_simps)
  with False show ?thesis by (simp add: time_Since_def time_Sub_def time_Now_def)
qed

lemma stale_elapsed:
  "\<not> time_Since r (time_Now r0) < cacheDuration \<longleftrightarrow>
     (if hasMonotonic r0 then mono_ns r - mono_ns r0 else wall_ns r - wall_ns r0) \<ge> cacheDuration"
  unfolding Since_Now
  by (subst sat64_less) (auto simp: cacheDuration_def Hour_def Second_def maxDuration_def minDuration_def)

lemma number_grows:
  assumes "validReading r0" "validReading r2" "steady r0 r1" "steady r1 r2"
    and "\<not> time_Since r1 (time_Now r0) < cacheDuration"
  shows "Unix (time_Now r0) < Unix (time_Now r2)"
proof -
  have "wall_ns r1 - wall_ns r0 \<ge> cacheDuration"
    using assms(3,5) by (auto simp: stale_elapsed steady_def split: if_splits)
  then have "wall_ns r2 \<ge> wall_ns r0 + 3600 * 1000000000"
    using assms(3,4) by (simp add: steady_def cacheDuration_def Hour_def Second_def)
  then have "wall_ns r0 div 1000000000 < wall_ns r2 div 1000000000"
    by linarith
  then show ?thesis using assms(1,2) by (simp add: Unix_time_Now Second_def)
qed

lemma generatedNumbers_append: "generatedNumbers (a @ b) = generatedNumbers a @ generatedNumbers b"
  by (induction a rule: generatedNumbers.induct) auto

lemma scanLoop_generated: "generatedNumbers (snd (scanLoop ts n cs lg)) = generatedNumbers lg"
  by (induction ts arbitrary: n cs lg)
    (auto simp: Let_def generatedNumbers_append split: option.splits)

lemma load_generated: "generatedNumbers (fst (loadRevokedCertificates fs s)) = []"
  using scanLoop_generated [of _ 0 "[]" "[]"]
  by (auto simp: loadRevokedCertificates_def split: sum.splits prod.splits option.splits)
     (metis generatedNumbers.simps(1) snd_conv)+

lemma getCRL_cases:
  assumes "getCRL X flt clk fs s = (res, s', fs', lg)"
  shows "(s' = s \<and> generatedNumbers lg = [])
       \<or> (\<not> cacheValid s (atLock clk)
          \<and> cachedCRL s' \<noteq> None \<and> cacheTime s' = time_Now (atNow clk)
          \<and> cacheNumber s' = Some (Unix (time_Now (atNow clk)))
          \<and> generatedNumbers lg = [Unix (time_Now (atNow clk))])"
  using assms load_generated [of fs s]
  by (auto simp: getCRL_def Let_def generatedNumbers_append
      split: if_splits sum.splits prod.splits option.splits)


lemma getCRL_encodes:
  assumes "getCRL X flt clk fs s = (res, s', fs', lg)" and "generatedNumbers lg \<noteq> []"
  shows "\<exists>caCert caPrivKey revokedCerts crlBytes.
      loadCertAndKey X fs (crtFile s) (keyFile s) = Inr (caCert, caPrivKey)
      \<and> snd (loadRevokedCertificates fs s) = Inr revokedCerts
      \<and> CreateRevocationList X (crlTemplate (time_Now (atNow clk)) revokedCerts)
            caCert caPrivKey = Inr crlBytes
      \<and> res = Inr crlBytes \<and> cachedCRL s' = Some crlBytes
      \<and> generatedNumbers lg = [Number (crlTemplate (time_Now (atNow clk)) revokedCerts)]"
  using assms load_generated [of fs s]
  by (auto simp: getCRL_def Let_def generatedNumbers_append crlTemplate_def
      split: if_splits sum.splits prod.splits option.splits)

lemma sorted_wrt_steady_tail:
  "sorted_wrt steady (r0 # a # b # rs) \<Longrightarrow> sorted_wrt steady (r0 # rs)"
  by simp

lemma serveAll_numbers:
  assumes "\<forall>r \<in> set (lockReadings ws). validReading r"
    and "sorted_wrt steady (lockReadings ws)"
  shows "sorted_wrt (<) (generatedNumbers (snd (serveAll s ws)))
       \<and> (\<forall>r0. cachedCRL s \<noteq> None \<longrightarrow> cacheTime s = time_Now r0 \<longrightarrow> validReading r0 \<longrightarrow>
              (\<forall>r \<in> set (lockReadings ws). steady r0 r) \<longrightarrow>
              (\<forall>n \<in> set (generatedNumbers (snd (serveAll s ws))). Unix (time_Now r0) < n))"
  using assms
proof (induction ws arbitrary: s)
  case Nil
  show ?case by simp
next
  case (Cons w ws)
  obtain X flt clk fs where w: "w = (X, flt, clk, fs)" by (cases w) auto
  obtain res s' fs' lg where g: "getCRL X flt clk fs s = (res, s', fs', lg)"
    by (cases "getCRL X flt clk fs s") auto
  obtain s'' lgs where r: "serveAll s' ws = (s'', lgs)" by (cases "serveAll s' ws") auto
  have all: "generatedNumbers (snd (serveAll s (w # ws))) = generatedNumbers lg @ generatedNumbers lgs"
    by (simp add: w g r generatedNumbers_append)
  have v: "\<forall>r \<in> set (lockReadings ws). validReading r"
    and vl: "validReading (atLock clk)" and vn: "validReading (atNow clk)"
    using Cons.prems(1) by (simp_all add: w)
  have st: "sorted_wrt steady (lockReadings ws)"
    and sl: "steady (atLock clk) (atNow clk)"
    and sn: "\<forall>r \<in> set (lockReadings ws). steady (atNow clk) r"
    using Cons.prems(2) by (simp_all add: w)
  note IH = Cons.IH [OF v st, of s', unfolded r snd_conv]
  from getCRL_cases [OF g] show ?case
  proof (elim disjE conjE)
    assume same: "s' = s" and none: "generatedNumbers lg = []"
    show ?thesis
      unfolding all none using IH by (simp add: same w)
  next
    assume stale: "\<not> cacheValid s (atLock clk)"
      and c: "cachedCRL s' \<noteq> None" and t: "cacheTime s' = time_Now (atNow clk)"
      and one: "generatedNumbers lg = [Unix (time_Now (atNow clk))]"
    have later: "\<forall>n \<in> set (generatedNumbers lgs). Unix (time_Now (atNow clk)) < n"
      using IH [THEN conjunct2, rule_format, OF c t vn] sn by blast
    have first: "Unix (time_Now r0) < Unix (time_Now (atNow clk))"
      if "cachedCRL s \<noteq> None" "cacheTime s = time_Now r0" "validReading r0"
        "steady r0 (atLock clk)" for r0
      using that stale by (intro number_grows [OF that(3) vn that(4) sl]) (simp add: cacheValid_def)
    show ?thesis
      unfolding all one using IH [THEN conjunct1] later first
      by (fastforce simp: w)
  qed
qed

text \<open>
  C2. Take any sequence of requests of one process, from any state of the server, with
  any outcomes of loading, encoding and saving. If the clock readings taken under the
  write lock are valid and steady (the monotonic clock does not go back and the wall
  clock is not set back), the numbers of the artifacts generated, in the order of
  generation, are strictly increasing. A generation happens only when the cache is not
  valid under the write lock; its number is the Unix second of the reading of
  \<open>time.Now()\<close>, and it sets \<open>cacheTime\<close> to that reading. That number is the one
  logged, the one kept in \<open>cacheNumber\<close> and the \<open>Number\<close> of the template that is
  handed to \<open>x509.CreateRevocationList\<close> with the certificate, the key and the registry
  just loaded; what the encoder makes of that template is what the request returns and
  what the server caches.
\<close>

theorem C2_numbers_strictly_increase:
  assumes "\<forall>r \<in> set (lockReadings ws). validReading r"
    and "sorted_wrt steady (lockReadings ws)"
  shows "sorted_wrt (<) (generatedNumbers (snd (serveAll s ws)))
       \<and> (\<forall>X flt clk fs res s' fs' lg.
             getCRL X flt clk fs s = (res, s', fs', lg) \<longrightarrow> generatedNumbers lg \<noteq> [] \<longrightarrow>
             validReading (atNow clk) \<longrightarrow>
             \<not> cacheValid s (atLock clk)
             \<and> generatedNumbers lg = [wall_ns (atNow clk) div Second]
             \<and> cacheNumber s' = Some (wall_ns (atNow clk) div Second)
             \<and> cacheTime s' = time_Now (atNow clk)
             \<and> (\<exists>caCert caPrivKey revokedCerts crlBytes.
                   loadCertAndKey X fs (crtFile s) (keyFile s) = Inr (caCert, caPrivKey)
                   \<and> snd (loadRevokedCertificates fs s) = Inr revokedCerts
                   \<and> CreateRevocationList X (crlTemplate (time_Now (atNow clk)) revokedCerts)
                         caCert caPrivKey = Inr crlBytes
                   \<and> res = Inr crlBytes \<and> cachedCRL s' = Some crlBytes
                   \<and> Number (crlTemplate (time_Now (atNow clk)) revokedCerts) =
                         wall_ns (atNow clk) div Second))"
proof (intro conjI allI impI)
  show "sorted_wrt (<) (generatedNumbers (snd (serveAll s ws)))"
    using serveAll_numbers [OF assms] by simp
next
  fix X flt clk fs res s' fs' lg
  assume g: "getCRL X flt clk fs s = (res, s', fs', lg)" and n: "generatedNumbers lg \<noteq> []"
    and v: "validReading (atNow clk)"
  from getCRL_cases [OF g] n
  have c: "\<not> cacheValid s (atLock clk)" "cacheTime s' = time_Now (atNow clk)"
    "cacheNumber s' = Some (Unix (time_Now (atNow clk)))"
    "generatedNumbers lg = [Unix (time_Now (atNow clk))]"
    by auto
  show "\<not> cacheValid s (atLock clk)" by (rule c(1))
  show "generatedNumbers lg = [wall_ns (atNow clk) div Second]"
    using c(4) v by (simp add: Unix_time_Now)
  show "cacheNumber s' = Some (wall_ns (atNow clk) div Second)"
    using c(3) v by (simp add: Unix_time_Now)
  show "cacheTime s' = time_Now (atNow clk)" by (rule c(2))
  from getCRL_encodes [OF g n] obtain caCert caPrivKey revokedCerts crlBytes where
    e: "loadCertAndKey X fs (crtFile s) (keyFile s) = Inr (caCert, caPrivKey)"
      "snd (loadRevokedCertificates fs s) = Inr revokedCerts"
      "CreateRevocationList X (crlTemplate (time_Now (atNow clk)) revokedCerts)
         caCert caPrivKey = Inr crlBytes"
      "res = Inr crlBytes" "cachedCRL s' = Some crlBytes"
      "generatedNumbers lg = [Number (crlTemplate (time_Now (atNow clk)) revokedCerts)]"
    by blast
  from e(6) c(4) v
  have "Number (crlTemplate (time_Now (atNow clk)) revokedCerts) = wall_ns (atNow clk) div Second"
    by (simp add: Unix_time_Now)
  with e(1-5) show "\<exists>caCert caPrivKey revokedCerts crlBytes.
      loadCertAndKey X fs (crtFile s) (keyFile s) = Inr (caCert, caPrivKey)
      \<and> snd (loadRevokedCertificates fs s) = Inr revokedCerts
      \<and> CreateRevocationList X (crlTemplate (time_Now (atNow clk)) revokedCerts)
            caCert caPrivKey = Inr crlBytes
      \<and> res = Inr crlBytes \<and> cachedCRL s' = Some crlBytes
      \<and> Number (crlTemplate (time_Now (atNow clk)) revokedCerts) = wall_ns (atNow clk) div Second"
    by blast
qed

theorem C2_witness:
  "sorted_wrt (<) (generatedNumbers (snd (serveAll demoServer demoRun)))
   \<and> generatedNumbers (snd (serveAll demoServer demoRun)) = [1700000000, 1700003600]
   \<and> (\<exists>s' fs' lg revokedCerts.
         getCRL demoX509 noFault (demoClock 0) demoFS demoServer =
           (Inr ''CRL 1700000000'', s', fs', lg)
         \<and> generatedNumbers lg = [1700000000] \<and> cacheNumber s' = Some 1700000000
         \<and> CreateRevocationList demoX509 (crlTemplate (time_Now (atNow (demoClock 0))) revokedCerts)
               (Certificate ''CERT'') (RSAPrivateKey ''RSA KEY'') = Inr ''CRL 1700000000''
         \<and> Number (crlTemplate (time_Now (atNow (demoClock 0))) revokedCerts) = 1700000000)"
proof -
  have a: "\<forall>r \<in> set (lockReadings demoRun). validReading r" by code_simp
  have b: "sorted_wrt steady (lockReadings demoRun)" by code_simp
  have c: "generatedNumbers (snd (serveAll demoServer demoRun)) = [1700000000, 1700003600]"
    by code_simp
  note T = C2_numbers_strictly_increase [OF a b, of demoServer]
  have r: "fst (getCRL demoX509 noFault (demoClock 0) demoFS demoServer) = Inr ''CRL 1700000000''"
    by code_simp
  have l: "generatedNumbers (snd (snd (snd (getCRL demoX509 noFault (demoClock 0) demoFS demoServer))))
      \<noteq> []"
    by code_simp
  have k: "loadCertAndKey demoX509 demoFS (crtFile demoServer) (keyFile demoServer) =
      Inr (Certificate ''CERT'', RSAPrivateKey ''RSA KEY'')"
    by code_simp
  have v: "validReading (atNow (demoClock 0))" by code_simp
  have w: "wall_ns (atNow (demoClock 0)) div Second = 1700000000" by code_simp
  obtain s' fs' lg where
    g: "getCRL demoX509 noFault (demoClock 0) demoFS demoServer = (Inr ''CRL 1700000000'', s', fs', lg)"
    using r by (cases "getCRL demoX509 noFault (demoClock 0) demoFS demoServer") auto
  from l g have n: "generatedNumbers lg \<noteq> []" by simp
  from T [THEN conjunct2, rule_format, OF g n v] k
  have "\<exists>revokedCerts.
         generatedNumbers lg = [1700000000] \<and> cacheNumber s' = Some 1700000000
         \<and> CreateRevocationList demoX509 (crlTemplate (time_Now (atNow (demoClock 0))) revokedCerts)
               (Certificate ''CERT'') (RSAPrivateKey ''RSA KEY'') = Inr ''CRL 1700000000''
         \<and> Number (crlTemplate (time_Now (atNow (demoClock 0))) revokedCerts) = 1700000000"
    unfolding w by auto
  with g T [THEN conjunct1] c show ?thesis by auto
qed

subsection \<open>Recovery at startup\<close>

lemma scanEntries_step:
  "scanEntries clk fs (e # rest) latest = scanEntries clk fs rest (scanEntries clk fs [e] latest)"
  by (cases latest) (simp add: Let_def split: option.splits sum.splits)

lemma scanEntries_one:
  "scanEntries clk fs [e] (ln, lt, lf) =
     (case candidate clk fs e of
        (Some n, t, f) \<Rightarrow> if better ln n then (Some n, t, f) else (ln, lt, lf)
      | (None, t, f) \<Rightarrow> (ln, lt, lf))"
  by (simp add: candidate_def better_def Let_def split: option.splits sum.splits)


lemma scanEntries_Nil: "scanEntries clk fs [] latest = latest"
  by simp

declare scanEntries.simps [simp del]

lemma scanEntries_inv:
  "(scanEntries clk fs es (ln, lt, lf) = (ln, lt, lf)
      \<or> (\<exists>e \<in> set es. \<exists>n. fst (candidate clk fs e) = Some n
            \<and> scanEntries clk fs es (ln, lt, lf) = candidate clk fs e))
   \<and> (\<forall>l. ln = Some l \<longrightarrow> (\<exists>r. fst (scanEntries clk fs es (ln, lt, lf)) = Some r \<and> l \<le> r))
   \<and> (\<forall>e \<in> set es. \<forall>m. fst (candidate clk fs e) = Some m \<longrightarrow>
         (\<exists>r. fst (scanEntries clk fs es (ln, lt, lf)) = Some r \<and> m \<le> r))"
proof (induction es arbitrary: ln lt lf)
  case Nil
  show ?case by (simp add: scanEntries_Nil)
next
  case (Cons e es)
  obtain cn ct cf where c: "candidate clk fs e = (cn, ct, cf)" by (cases "candidate clk fs e") auto
  show ?case
  proof (cases "\<exists>n. cn = Some n \<and> better ln n")
    case True
    then obtain n where n: "cn = Some n" "better ln n" by auto
    have one: "scanEntries clk fs [e] (ln, lt, lf) = (Some n, ct, cf)"
      by (subst scanEntries_one) (simp add: c n)
    have step: "scanEntries clk fs (e # es) (ln, lt, lf) = scanEntries clk fs es (Some n, ct, cf)"
      by (subst scanEntries_step) (simp add: one)
    note IH = Cons.IH [of "Some n" ct cf]
    from IH obtain r where r: "fst (scanEntries clk fs es (Some n, ct, cf)) = Some r" "n \<le> r"
      by auto
    show ?thesis
      unfolding step using IH c n r
      by (auto simp: better_def split: option.splits)
  next
    case False
    have one: "scanEntries clk fs [e] (ln, lt, lf) = (ln, lt, lf)"
      using False by (subst scanEntries_one) (auto simp: c split: option.splits)
    have step: "scanEntries clk fs (e # es) (ln, lt, lf) = scanEntries clk fs es (ln, lt, lf)"
      by (subst scanEntries_step) (simp add: one)
    note IH = Cons.IH [of ln lt lf]
    have e: "\<exists>r. fst (scanEntries clk fs es (ln, lt, lf)) = Some r \<and> m \<le> r"
      if "fst (candidate clk fs e) = Some m" for m
    proof -
      from that c have "cn = Some m" by simp
      with False obtain l where "ln = Some l" "m \<le> l"
        by (auto simp: better_def split: option.splits)
      with IH show ?thesis by fastforce
    qed
    show ?thesis
      unfolding step using IH e by auto
  qed
qed




lemma scan_unique:
  assumes "e \<in> set es" and "fst (candidate clk fs e) = Some n"
    and "\<forall>e' \<in> set es. e' \<noteq> e \<longrightarrow> (case fst (candidate clk fs e') of None \<Rightarrow> True | Some m \<Rightarrow> m < n)"
  shows "scanEntries clk fs es (None, zeroTime, []) = candidate clk fs e"
proof -
  let ?R = "scanEntries clk fs es (None, zeroTime, [])"
  note inv = scanEntries_inv [of clk fs es None zeroTime "[]"]
  from inv assms(1,2) obtain r where r: "fst ?R = Some r" "n \<le> r" by blast
  with inv obtain e' m where e': "e' \<in> set es" "fst (candidate clk fs e') = Some m"
    "?R = candidate clk fs e'"
    by auto
  have "e' = e"
  proof (rule ccontr)
    assume "e' \<noteq> e"
    with assms(3) e' have "m < n" by fastforce
    with r e' show False by simp
  qed
  with e' show ?thesis by simp
qed







lemma candidate_Some:
  "candidate clk fs e = (Some n, t, f) \<longleftrightarrow>
     (\<not> IsDir e \<and> HasPrefix (Name e) ''crl-'' \<and> HasSuffix (Name e) ''.der''
      \<and> SetString (TrimSuffix (TrimPrefix (Name e) ''crl-'') ''.der'') 10 = Some n
      \<and> (\<exists>meta ts.
            os_ReadFile fs (filepath_Join cacheDir
              (''crl-'' @ TrimSuffix (TrimPrefix (Name e) ''crl-'') ''.der'' @ ''.meta'')) = Inr meta
            \<and> ParseInt (TrimSpace meta) = Some ts
            \<and> time_Since (clk (Name e)) (time_Unix ts) < cacheDuration
            \<and> t = time_Unix ts)
      \<and> f = filepath_Join cacheDir (Name e))"
  by (auto simp: candidate_def scanEntries.simps Let_def split: option.splits sum.splits)







subsection \<open>Saving and recovering\<close>

lemma map_of_filter_neq:
  "map_of (filter (\<lambda>(q, y). q \<noteq> p) fs) q = (if q = p then None else map_of fs q)"
  by (induction fs) auto

lemma map_of_putNode: "map_of (putNode p x fs) q = (if q = p then Some x else map_of fs q)"
  by (simp add: putNode_def map_of_filter_neq)

lemma parentDir_Join: "CHR ''/'' \<notin> set n \<Longrightarrow> parentDir (filepath_Join d n) = d"
proof -
  assume n: "CHR ''/'' \<notin> set n"
  have "dropWhile (\<lambda>c. c \<noteq> CHR ''/'') (rev n @ CHR ''/'' # rev d) = CHR ''/'' # rev d"
    using n by (subst dropWhile_append2) auto
  then show ?thesis by (simp add: parentDir_def filepath_Join_def)
qed

lemma os_WriteFile_ok:
  assumes "os_WriteFile flt fs p bs = (None, fs')"
  shows "fs' = putNode p (File bs) fs"
    and "CHR ''/'' \<in> set p \<Longrightarrow> map_of fs (parentDir p) = Some Dir"
  using assms
  by (auto simp: os_WriteFile_def split: option.splits write_fault.splits if_splits node.splits)

lemma childName_Join:
  "n \<noteq> [] \<Longrightarrow> CHR ''/'' \<notin> set n \<Longrightarrow> childName d (filepath_Join d n) = Some n"
  by (simp add: childName_def filepath_Join_def HasPrefix_def)

lemma set_map_filter: "set (List.map_filter f xs) = {y. \<exists>x \<in> set xs. f x = Some y}"
  by (induction xs) (auto simp: List.map_filter_def)

lemma os_ReadDir_entries:
  assumes "map_of fs d = Some Dir" and "walkError fs (ancestors d) = None"
  shows "\<exists>es. os_ReadDir fs d = Inr es
            \<and> (\<forall>e. e \<in> set es \<longleftrightarrow>
                  (\<exists>p x. (p, x) \<in> set fs \<and> childName d p = Some (Name e))
                  \<and> IsDir e = (map_of fs (filepath_Join d (Name e)) = Some Dir))"
proof -
  let ?names = "sort (remdups (List.map_filter (\<lambda>(p, x). childName d p) fs))"
  let ?es = "map (\<lambda>n. \<lparr>Name = n, IsDir = (map_of fs (filepath_Join d n) = Some Dir)\<rparr>) ?names"
  have r: "os_ReadDir fs d = Inr ?es" using assms by (simp add: os_ReadDir_def)
  have n: "set ?names = {n. \<exists>p x. (p, x) \<in> set fs \<and> childName d p = Some n}"
    by (force simp: set_map_filter)
  have "e \<in> set ?es \<longleftrightarrow>
      (\<exists>p x. (p, x) \<in> set fs \<and> childName d p = Some (Name e))
      \<and> IsDir e = (map_of fs (filepath_Join d (Name e)) = Some Dir)" for e
  proof
    assume "e \<in> set ?es"
    then obtain nm where "nm \<in> set ?names"
      "e = \<lparr>Name = nm, IsDir = (map_of fs (filepath_Join d nm) = Some Dir)\<rparr>"
      by auto
    then show "(\<exists>p x. (p, x) \<in> set fs \<and> childName d p = Some (Name e))
      \<and> IsDir e = (map_of fs (filepath_Join d (Name e)) = Some Dir)"
      using n by auto
  next
    assume a: "(\<exists>p x. (p, x) \<in> set fs \<and> childName d p = Some (Name e))
      \<and> IsDir e = (map_of fs (filepath_Join d (Name e)) = Some Dir)"
    then have "Name e \<in> set ?names" using n by auto
    moreover have "e = \<lparr>Name = Name e, IsDir = (map_of fs (filepath_Join d (Name e)) = Some Dir)\<rparr>"
      using a by simp
    ultimately show "e \<in> set ?es" by (metis (no_types, lifting) image_eqI set_map)
  qed
  with r show ?thesis by blast
qed

lemma HasPrefix_append: "HasPrefix (a @ b) a"
  by (simp add: HasPrefix_def)

lemma HasSuffix_append: "HasSuffix (a @ b) b"
  by (simp add: HasSuffix_def)

lemma TrimPrefix_append: "TrimPrefix (a @ b) a = b"
  by (simp add: TrimPrefix_def HasPrefix_append)

lemma TrimSuffix_append: "TrimSuffix (a @ b) b = a"
  by (simp add: TrimSuffix_def HasSuffix_append)

lemma wrap64_range: "- (2 ^ 63) \<le> wrap64 x \<and> wrap64 x < 2 ^ 63"
  by (simp add: wrap64_def)

lemma wrap64_wrap: "wrap64 (wrap64 x + y) = wrap64 (x + y)"
proof -
  have "(wrap64 x + y + 2 ^ 63) mod 2 ^ 64 = ((x + 2 ^ 63) mod 2 ^ 64 + y) mod (2 ^ 64 :: int)"
    by (simp add: wrap64_def algebra_simps)
  also have "\<dots> = ((x + 2 ^ 63) + y) mod 2 ^ 64"
    by (rule mod_add_left_eq)
  also have "\<dots> = (x + y + 2 ^ 63) mod 2 ^ 64"
    by (simp add: algebra_simps)
  finally show ?thesis by (simp add: wrap64_def)
qed

lemma Unix_time_Unix: "- (2 ^ 63) \<le> u \<Longrightarrow> u < 2 ^ 63 \<Longrightarrow> Unix (time_Unix u) = u"
proof -
  assume u: "- (2 ^ 63) \<le> u" "u < 2 ^ 63"
  have "Unix (time_Unix u) = wrap64 (wrap64 (u + unixToInternal) + (- unixToInternal))"
    by (simp add: Unix_def time_Unix_def)
  also have "\<dots> = wrap64 u" by (subst wrap64_wrap) simp
  also have "\<dots> = u" using u by (rule wrap64_id)
  finally show ?thesis .
qed

lemma Unix_range: "- (2 ^ 63) \<le> Unix t \<and> Unix t < 2 ^ 63"
  unfolding Unix_def by (rule wrap64_range)

lemma intString_no_slash: "CHR ''/'' \<notin> set (intString i)"
proof
  assume "CHR ''/'' \<in> set (intString i)"
  then have "CHR ''/'' = CHR ''-'' \<or> isDecimal CHR ''/''"
    using decString_digits [of "- i" "CHR ''/''"] decString_digits [of i "CHR ''/''"]
    by (auto simp: intString_def split: if_splits)
  then show False by (simp add: isDecimal_def)
qed


lemma saveCachedCRL_ok:
  assumes "cachedCRL s = Some crl" and "cacheNumber s = Some n"
    and "saveCachedCRL flt fs s = (None, fs')"
  shows "map_of fs' cacheDir = Some Dir"
    and "map_of fs' (filepath_Join cacheDir (''crl-'' @ intString n @ ''.der'')) = Some (File crl)"
    and "map_of fs' (filepath_Join cacheDir (''crl-'' @ intString n @ ''.meta'')) =
           Some (File (intString (Unix (cacheTime s)) @ [CHR 0x0A]))"
    and "(filepath_Join cacheDir (''crl-'' @ intString n @ ''.der''), File crl) \<in> set fs'"
proof -
  let ?der = "filepath_Join cacheDir (''crl-'' @ intString n @ ''.der'')"
  let ?meta = "filepath_Join cacheDir (''crl-'' @ intString n @ ''.meta'')"
  let ?m = "intString (Unix (cacheTime s)) @ [CHR 0x0A]"
  obtain fs1 where w1: "os_WriteFile flt fs ?der crl = (None, fs1)"
    and w2: "os_WriteFile flt fs1 ?meta ?m = (None, fs')"
    using assms
    by (auto simp: saveCachedCRL_def numberString_def bytesOf_def Let_def
        split: prod.splits option.splits)
  have fs1: "fs1 = putNode ?der (File crl) fs" using w1 by (rule os_WriteFile_ok)
  have fs': "fs' = putNode ?meta (File ?m) fs1" using w2 by (rule os_WriteFile_ok)
  have slash: "CHR ''/'' \<in> set ?der" by (simp add: filepath_Join_def)
  have name: "CHR ''/'' \<notin> set (''crl-'' @ intString n @ ''.der'')"
    using intString_no_slash [of n] by simp
  have "map_of fs (parentDir ?der) = Some Dir" using w1 slash by (rule os_WriteFile_ok)
  then have dir: "map_of fs cacheDir = Some Dir"
    using parentDir_Join [OF name, of cacheDir] by simp
  have ne1: "cacheDir \<noteq> ?der" "cacheDir \<noteq> ?meta" by (simp_all add: filepath_Join_def)
  have ne2: "?der \<noteq> ?meta" by (simp add: filepath_Join_def)
  show "map_of fs' cacheDir = Some Dir"
    using dir ne1 by (simp add: fs' fs1 map_of_putNode)
  show "map_of fs' ?der = Some (File crl)"
    using ne2 by (simp add: fs' fs1 map_of_putNode)
  show "map_of fs' ?meta = Some (File ?m)"
    by (simp add: fs' map_of_putNode)
  show "(?der, File crl) \<in> set fs'"
    using ne2 by (auto simp: fs' fs1 putNode_def)
qed

lemma os_ReadFile_File:
  "map_of fs cacheDir = Some Dir \<Longrightarrow> CHR ''/'' \<notin> set n \<Longrightarrow>
     map_of fs (filepath_Join cacheDir n) = Some (File b) \<Longrightarrow>
     os_ReadFile fs (filepath_Join cacheDir n) = Inr b"
proof -
  assume d: "map_of fs cacheDir = Some Dir" and n: "CHR ''/'' \<notin> set n"
    and f: "map_of fs (filepath_Join cacheDir n) = Some (File b)"
  have "CHR ''/'' \<notin> set cacheDir" by (simp add: cacheDir_def)
  then have "ancestors (filepath_Join cacheDir n) = [cacheDir]" using n by (rule ancestors_Join)
  with d f show ?thesis by (simp add: os_ReadFile_def os_Open_def)
qed

lemma recover_saved:
  assumes "cachedCRL s = Some crl" and "cacheNumber s = Some n"
    and "saveCachedCRL flt fs s = (None, fs')"
    and "time_Since (clk (''crl-'' @ intString n @ ''.der'')) (time_Unix (Unix (cacheTime s)))
           < cacheDuration"
    and "case os_ReadDir fs' cacheDir of
           Inl err \<Rightarrow> True
         | Inr es \<Rightarrow> \<forall>e \<in> set es. Name e \<noteq> ''crl-'' @ intString n @ ''.der'' \<longrightarrow>
             (case fst (candidate clk fs' e) of None \<Rightarrow> True | Some m \<Rightarrow> m < n)"
  shows "loadCachedCRL clk fs' s0 =
     (s0\<lparr>cachedCRL := Some crl, cacheTime := time_Unix (Unix (cacheTime s)), cacheNumber := Some n\<rparr>,
      [LoadedCachedCRL (intString n)])"
proof -
  let ?name = "''crl-'' @ intString n @ ''.der''"
  let ?der = "filepath_Join cacheDir ?name"
  let ?e = "\<lparr>Name = ?name, IsDir = False\<rparr>"
  let ?u = "Unix (cacheTime s)"
  note sv = saveCachedCRL_ok [OF assms(1,2,3)]
  have top: "walkError fs' (ancestors cacheDir) = None" by (simp add: ancestors_cacheDir)
  from os_ReadDir_entries [OF sv(1) top] obtain es where es: "os_ReadDir fs' cacheDir = Inr es"
    and mem: "\<And>e. e \<in> set es \<longleftrightarrow>
      (\<exists>p x. (p, x) \<in> set fs' \<and> childName cacheDir p = Some (Name e))
      \<and> IsDir e = (map_of fs' (filepath_Join cacheDir (Name e)) = Some Dir)"
    by blast
  have name: "?name \<noteq> []" "CHR ''/'' \<notin> set ?name"
    using intString_no_slash [of n] by simp_all
  have e_in: "?e \<in> set es"
    unfolding mem using sv(2,4) childName_Join [OF name, of cacheDir] by auto
  have cand: "candidate clk fs' ?e = (Some n, time_Unix ?u, ?der)"
  proof -
    define name where "name = ?name"
    define numStr where "numStr = intString n"
    have "TrimPrefix ?name ''crl-'' = intString n @ ''.der''"
      by (rule TrimPrefix_append)
    then have num: "TrimSuffix (TrimPrefix name ''crl-'') ''.der'' = numStr"
      by (simp only: TrimSuffix_append name_def numStr_def)
    have pre: "HasPrefix name ''crl-''" unfolding name_def by (rule HasPrefix_append)
    have suf: "HasSuffix name ''.der''"
      using HasSuffix_append [of "''crl-'' @ intString n" "''.der''"] by (simp add: name_def)
    have "CHR ''/'' \<notin> set (''crl-'' @ intString n @ ''.meta'')"
      using intString_no_slash [of n] by simp
    with sv(1) have meta: "os_ReadFile fs' (filepath_Join cacheDir (''crl-'' @ numStr @ ''.meta'')) =
        Inr (intString ?u @ [CHR 0x0A])"
      unfolding numStr_def using sv(3) by (rule os_ReadFile_File)
    have parse: "ParseInt (TrimSpace (intString ?u @ [CHR 0x0A])) = Some ?u"
      using Unix_range [of "cacheTime s"] by (simp add: TrimSpace_intString ParseInt_intString)
    have set: "SetString numStr 10 = Some n" by (simp add: numStr_def SetString_intString)
    have fresh: "time_Since (clk name) (time_Unix ?u) < cacheDuration"
      using assms(4) by (simp add: name_def)
    have "candidate clk fs' \<lparr>Name = name, IsDir = False\<rparr> =
        (Some n, time_Unix ?u, filepath_Join cacheDir name)"
      unfolding candidate_Some using pre suf meta parse set fresh by (simp add: num)
    then show ?thesis by (simp add: name_def)
  qed
  have others: "\<forall>e' \<in> set es. e' \<noteq> ?e \<longrightarrow>
      (case fst (candidate clk fs' e') of None \<Rightarrow> True | Some m \<Rightarrow> m < n)"
  proof (intro ballI impI)
    fix e' assume e': "e' \<in> set es" "e' \<noteq> ?e"
    have "Name e' \<noteq> ?name"
    proof
      assume eq: "Name e' = ?name"
      from e' mem [of e'] have "IsDir e' = (map_of fs' (filepath_Join cacheDir (Name e')) = Some Dir)"
        by blast
      with eq sv(2) have "IsDir e' = False" by simp
      with eq e'(2) show False by (cases e') simp
    qed
    with assms(5) es e'(1)
    show "case fst (candidate clk fs' e') of None \<Rightarrow> True | Some m \<Rightarrow> m < n" by simp
  qed
  have sel: "scanEntries clk fs' es (None, zeroTime, []) = (Some n, time_Unix ?u, ?der)"
    using scan_unique [OF e_in _ others] cand by simp
  have rd: "os_ReadFile fs' ?der = Inr crl" using sv(1) name(2) sv(2) by (rule os_ReadFile_File)
  have "?der \<noteq> []" by (simp add: filepath_Join_def)
  with es sel rd show ?thesis by (simp add: loadCachedCRL_def numberString_def)
qed

text \<open>
  C5. Let the server hold an artifact (bytes, number, generation time) and let
  \<open>saveCachedCRL\<close> succeed. Then the payload file holds the bytes and the metadata file
  the Unix second of the generation time. Let recovery run over the resulting store
  while the saved timestamp is less than one hour old, and let every other entry of the
  cache directory be no candidate or have a smaller number. Then \<open>loadCachedCRL\<close>, from
  any server state, installs the same bytes, the same number and the generation time cut
  to the second, and logs that it loaded the CRL of that number. Neither the credential
  loader nor the encoder is called for it: \<open>loadCachedCRL\<close> takes no decoder and no
  encoder, and a request that finds the recovered artifact less than one hour old returns
  its bytes whatever the decoders and the encoder would do, changes nothing and logs
  nothing (\<open>getCRL\<close> logs a line before it calls the loader).
\<close>

theorem C5_persist_then_recover:
  assumes "cachedCRL s = Some crl" and "cacheNumber s = Some n"
    and "saveCachedCRL flt fs s = (None, fs')"
    and "time_Since (clk (''crl-'' @ intString n @ ''.der'')) (time_Unix (Unix (cacheTime s)))
           < cacheDuration"
    and "case os_ReadDir fs' cacheDir of
           Inl err \<Rightarrow> True
         | Inr es \<Rightarrow> \<forall>e \<in> set es. Name e \<noteq> ''crl-'' @ intString n @ ''.der'' \<longrightarrow>
             (case fst (candidate clk fs' e) of None \<Rightarrow> True | Some m \<Rightarrow> m < n)"
  shows "os_ReadFile fs' (filepath_Join cacheDir (''crl-'' @ intString n @ ''.der'')) = Inr crl
       \<and> os_ReadFile fs' (filepath_Join cacheDir (''crl-'' @ intString n @ ''.meta'')) =
           Inr (intString (Unix (cacheTime s)) @ [CHR 0x0A])
       \<and> cachedCRL (fst (loadCachedCRL clk fs' s0)) = Some crl
       \<and> cacheNumber (fst (loadCachedCRL clk fs' s0)) = Some n
       \<and> cacheTime (fst (loadCachedCRL clk fs' s0)) = time_Unix (Unix (cacheTime s))
       \<and> Unix (cacheTime (fst (loadCachedCRL clk fs' s0))) = Unix (cacheTime s)
       \<and> snd (loadCachedCRL clk fs' s0) = [LoadedCachedCRL (intString n)]
       \<and> (\<forall>X flt' clk' fs''.
             time_Since (atRLock clk') (time_Unix (Unix (cacheTime s))) < cacheDuration \<longrightarrow>
             getCRL X flt' clk' fs'' (fst (loadCachedCRL clk fs' s0)) =
               (Inr crl, fst (loadCachedCRL clk fs' s0), fs'', []))"
proof -
  note sv = saveCachedCRL_ok [OF assms(1,2,3)]
  note rec = recover_saved [OF assms, of s0]
  have u: "Unix (time_Unix (Unix (cacheTime s))) = Unix (cacheTime s)"
    using Unix_range [of "cacheTime s"] by (simp add: Unix_time_Unix)
  have "CHR ''/'' \<notin> set (''crl-'' @ intString n @ ''.der'')"
    using intString_no_slash [of n] by simp
  with sv(1) have der:
    "os_ReadFile fs' (filepath_Join cacheDir (''crl-'' @ intString n @ ''.der'')) = Inr crl"
    using sv(2) by (rule os_ReadFile_File)
  have "CHR ''/'' \<notin> set (''crl-'' @ intString n @ ''.meta'')"
    using intString_no_slash [of n] by simp
  with sv(1) have meta:
    "os_ReadFile fs' (filepath_Join cacheDir (''crl-'' @ intString n @ ''.meta'')) =
           Inr (intString (Unix (cacheTime s)) @ [CHR 0x0A])"
    using sv(3) by (rule os_ReadFile_File)
  have served: "getCRL X flt' clk' fs'' (fst (loadCachedCRL clk fs' s0)) =
      (Inr crl, fst (loadCachedCRL clk fs' s0), fs'', [])"
    if "time_Since (atRLock clk') (time_Unix (Unix (cacheTime s))) < cacheDuration"
    for X flt' clk' fs''
    using that by (simp add: rec getCRL_def cacheValid_def bytesOf_def)
  from rec u der meta served show ?thesis by simp
qed

text \<open>
  The specification says so for every store. When the store already holds a fresh pair
  with a greater number, recovery installs that pair and not the artifact just saved:
  the artifact with number 1700002000 is saved next to a pair with number 1700002500, and
  recovery, while the saved artifact is less than one hour old, installs the other bytes.
\<close>

theorem C5_counterexample:
  "cachedCRL demoArtifact = Some ''CRL 1700002000''
   \<and> cacheNumber demoArtifact = Some 1700002000
   \<and> fst (saveCachedCRL noFault demoFS_newer demoArtifact) = None
   \<and> time_Since (demoNow ''crl-1700002000.der'') (cacheTime demoArtifact) < cacheDuration
   \<and> cachedCRL (fst (loadCachedCRL demoNow (snd (saveCachedCRL noFault demoFS_newer demoArtifact))
         demoServer)) = Some ''other''
   \<and> cacheNumber (fst (loadCachedCRL demoNow (snd (saveCachedCRL noFault demoFS_newer demoArtifact))
         demoServer)) = Some 1700002500"
  by code_simp

theorem C5_witness:
  "saveCachedCRL noFault demoFS_cache demoArtifact = (None, demoSaved)
   \<and> cachedCRL (fst (loadCachedCRL demoNow demoSaved demoServer)) = Some ''CRL 1700002000''
   \<and> cacheNumber (fst (loadCachedCRL demoNow demoSaved demoServer)) = Some 1700002000
   \<and> Unix (cacheTime (fst (loadCachedCRL demoNow demoSaved demoServer))) = 1700002000
   \<and> getCRL demoX509 noFault (demoClock (3000 * Second)) demoFS_noKey
         (fst (loadCachedCRL demoNow demoSaved demoServer)) =
       (Inr ''CRL 1700002000'', fst (loadCachedCRL demoNow demoSaved demoServer), demoFS_noKey, [])"
proof -
  have a: "cachedCRL demoArtifact = Some ''CRL 1700002000''" by code_simp
  have b: "cacheNumber demoArtifact = Some 1700002000" by code_simp
  have c: "saveCachedCRL noFault demoFS_cache demoArtifact = (None, demoSaved)" by code_simp
  have d: "time_Since (demoNow (''crl-'' @ intString 1700002000 @ ''.der''))
      (time_Unix (Unix (cacheTime demoArtifact))) < cacheDuration"
    by code_simp
  have e: "case os_ReadDir demoSaved cacheDir of
           Inl err \<Rightarrow> True
         | Inr es \<Rightarrow> \<forall>e \<in> set es. Name e \<noteq> ''crl-'' @ intString 1700002000 @ ''.der'' \<longrightarrow>
             (case fst (candidate demoNow demoSaved e) of None \<Rightarrow> True | Some m \<Rightarrow> m < 1700002000)"
    by code_simp
  have v: "Unix (cacheTime demoArtifact) = 1700002000" by code_simp
  have f: "time_Since (atRLock (demoClock (3000 * Second))) (time_Unix 1700002000) < cacheDuration"
    by code_simp
  note T = C5_persist_then_recover [OF a b c d e, of demoServer, unfolded v]
  note served = T [THEN conjunct2, THEN conjunct2, THEN conjunct2, THEN conjunct2, THEN conjunct2,
      THEN conjunct2, THEN conjunct2, rule_format, OF f, of demoX509 noFault demoFS_noKey]
  from T c served show ?thesis by blast
qed

subsection \<open>Concurrent requests\<close>

lemma howMany_update:
  "i < length xs \<Longrightarrow>
     howMany P (xs[i := y]) + (if P (xs ! i) then 1 else 0) = howMany P xs + (if P y then 1 else 0)"
  unfolding howMany_def
proof (induction xs arbitrary: i)
  case Nil
  then show ?case by simp
next
  case (Cons x xs)
  then show ?case by (cases i) auto
qed

lemma howMany_nth: "i < length xs \<Longrightarrow> P (xs ! i) \<Longrightarrow> 0 < howMany P xs"
  unfolding howMany_def by (metis filter_empty_conv length_greater_0_conv nth_mem)

lemma howMany_zero: "howMany P xs = 0 \<longleftrightarrow> (\<forall>x \<in> set xs. \<not> P x)"
  unfolding howMany_def by (simp add: filter_empty_conv)

lemma howMany_pos: "0 < howMany P xs \<longleftrightarrow> (\<exists>i < length xs. P (xs ! i))"
  unfolding howMany_def by (metis howMany_def howMany_zero in_set_conv_nth neq0_conv)

lemma howMany_replicate: "howMany P (replicate n x) = (if P x then n else 0)"
  unfolding howMany_def by simp

lemma howMany_unique:
  assumes "howMany P xs \<le> 1" "i < length xs" "j < length xs" "P (xs ! i)" "P (xs ! j)"
  shows "i = j"
proof (rule ccontr)
  assume ne: "i \<noteq> j"
  show False using assms ne
  proof (induction xs arbitrary: i j)
    case Nil
    then show ?case by simp
  next
    case (Cons x xs)
    show ?case
    proof (cases i)
      case 0
      with Cons.prems obtain j' where j: "j = Suc j'" by (cases j) auto
      with Cons.prems 0 have "P x" "P (xs ! j')" "j' < length xs" by auto
      then have "0 < howMany P xs" by (auto intro: howMany_nth)
      with \<open>P x\<close> Cons.prems(1) show False by (simp add: howMany_def)
    next
      case (Suc i')
      show False
      proof (cases j)
        case 0
        with Cons.prems Suc have "P x" "P (xs ! i')" "i' < length xs" by auto
        then have "0 < howMany P xs" by (auto intro: howMany_nth)
        with \<open>P x\<close> Cons.prems(1) show False by (simp add: howMany_def)
      next
        case (Suc j')
        with Cons.prems \<open>i = Suc i'\<close> have "howMany P xs \<le> 1" "i' < length xs" "j' < length xs"
          "P (xs ! i')" "P (xs ! j')" "i' \<noteq> j'"
          by (auto simp: howMany_def split: if_splits)
        then show False by (rule Cons.IH)
      qed
    qed
  qed
qed

lemma steady_trans: "steady a b \<Longrightarrow> steady b c \<Longrightarrow> steady a c"
  by (auto simp: steady_def)

lemma steady_refl: "steady a a"
  by (simp add: steady_def)

lemma sat64_mono: "x \<le> y \<Longrightarrow> sat64 x \<le> sat64 y"
  by (auto simp: sat64_def maxDuration_def minDuration_def)

lemma Since_mono:
  assumes "steady a b"
  shows "time_Since a t \<le> time_Since b t"
proof (cases "mono t")
  case None
  have "wall_ns a \<le> wall_ns b" using assms by (auto simp: steady_def)
  then have "(wall_ns a div Second + unixToInternal - sec t) * Second + (wall_ns a mod Second - nsec t)
      \<le> (wall_ns b div Second + unixToInternal - sec t) * Second + (wall_ns b mod Second - nsec t)"
    using wall_split [of "wall_ns a"] wall_split [of "wall_ns b"] by (simp add: algebra_simps)
  then have "sat64 ((wall_ns a div Second + unixToInternal - sec t) * Second + (wall_ns a mod Second - nsec t))
      \<le> sat64 ((wall_ns b div Second + unixToInternal - sec t) * Second + (wall_ns b mod Second - nsec t))"
    by (rule sat64_mono)
  then show ?thesis
    using None by (simp add: time_Since_def time_Sub_def time_Now_def)
next
  case (Some m)
  then show ?thesis
    using assms by (auto simp: time_Since_def steady_def intro!: sat64_mono)
qed

lemma stale_persists: "\<not> cacheValid s a \<Longrightarrow> steady a b \<Longrightarrow> \<not> cacheValid s b"
  using Since_mono [of a b "cacheTime s"] by (auto simp: cacheValid_def)

lemma installed_valid:
  assumes "stamped r0 c now" and "withinHour r0 c"
  shows "cacheValid (installed s b now) (clockNow c)"
proof -
  from assms(1) obtain rn where rn: "now = time_Now rn" "steady r0 rn" "steady rn (clockNow c)"
    by (auto simp: stamped_def)
  have "wall_ns (clockNow c) - wall_ns rn < cacheDuration"
    using rn(2) assms(2) by (auto simp: steady_def withinHour_def)
  moreover have "mono_ns (clockNow c) - mono_ns rn \<le> wall_ns (clockNow c) - wall_ns rn"
    using rn(3) by (simp add: steady_def)
  ultimately have
    "(if hasMonotonic rn then mono_ns (clockNow c) - mono_ns rn
      else wall_ns (clockNow c) - wall_ns rn) < cacheDuration"
    by simp
  then have "time_Since (clockNow c) (time_Now rn) < cacheDuration"
    using stale_elapsed [of "clockNow c" rn] by linarith
  then show ?thesis by (simp add: cacheValid_def installed_def rn(1))
qed

lemma coherent_start: "coherent (s0, fs0, r0, ce0, k0, rcs0) (start s0 fs0 r0 n)"
  by (simp add: coherent_def start_def howMany_replicate holdsLock_def steady_refl untouched_def)

lemma pcFact_quiet:
  assumes "pcFact w c p"
    and "server c' = server c" "files c' = files c" "keyLoads c' = keyLoads c"
    "encodings c' = encodings c" "clockNow c' = clockNow c"
  shows "pcFact w c' p"
  using assms
  by (cases p; cases w) (auto simp: untouched_def built_def stamped_def)

lemma pcFact_idle: "\<not> inRegen p \<Longrightarrow> \<not> isReturned p \<Longrightarrow> pcFact w c p"
  by (cases p) auto

lemma holder_alone:
  assumes "coherent w c" "i < length (threads c)" "holdsLock (threads c ! i)"
    "j < length (threads c)" "j \<noteq> i"
  shows "\<not> holdsLock (threads c ! j)"
proof
  assume "holdsLock (threads c ! j)"
  moreover have "howMany holdsLock (threads c) \<le> 1" using assms(1) by (simp add: coherent_def)
  ultimately have "i = j" using assms(2,3,4) by (intro howMany_unique [of holdsLock "threads c"])
  with assms(5) show False by simp
qed

lemma untouched_quiet:
  "untouched w c l e \<Longrightarrow> server c' = server c \<Longrightarrow> files c' = files c \<Longrightarrow>
     keyLoads c' = keyLoads c \<Longrightarrow> encodings c' = encodings c \<Longrightarrow> untouched w c' l e"
  by (cases w) (simp add: untouched_def)

lemma built_quiet:
  "built w c \<Longrightarrow> server c' = server c \<Longrightarrow> keyLoads c' = keyLoads c \<Longrightarrow>
     encodings c' = encodings c \<Longrightarrow> clockNow c' = clockNow c \<Longrightarrow> built w c'"
  by (cases w) (auto simp: built_def stamped_def)

lemma inRegen_holds: "inRegen p \<Longrightarrow> holdsLock p"
  by (simp add: holdsLock_def)

lemma no_holder_no_regen: "howMany holdsLock xs = 0 \<Longrightarrow> howMany inRegen xs = 0"
  by (auto simp: howMany_zero inRegen_holds)

lemma untouched_not_valid:
  assumes "coherent w c" "succeeds X w" "untouched w c l e"
  shows "\<not> cacheValid (server c) (clockNow c)"
proof -
  obtain s0 fs0 r0 ce0 k0 rcs0 where w: "w = (s0, fs0, r0, ce0, k0, rcs0)" by (cases w) auto
  have "\<not> cacheValid s0 r0" using assms(2) by (simp add: succeeds_def w)
  moreover have "steady r0 (clockNow c)" using assms(1) by (simp add: coherent_def w)
  ultimately have "\<not> cacheValid s0 (clockNow c)" by (rule stale_persists)
  then show ?thesis using assms(3) by (simp add: untouched_def w)
qed

lemma built_valid:
  assumes "built w c" "withinHour (fst (snd (snd w))) c"
  shows "cacheValid (server c) (clockNow c)"
proof -
  obtain s0 fs0 r0 ce0 k0 rcs0 where w: "w = (s0, fs0, r0, ce0, k0, rcs0)" by (cases w) auto
  from assms(1) obtain b now where "server c = installed s0 b now" "stamped r0 c now"
    by (auto simp: built_def w)
  with assms(2) show ?thesis by (simp add: installed_valid w)
qed

lemma no_returned_unless_built:
  assumes "coherent w c" "\<not> built w c"
  shows "howMany isReturned (threads c) = 0"
proof -
  have "\<not> isReturned (threads c ! j)" if "j < length (threads c)" for j
  proof
    assume r: "isReturned (threads c ! j)"
    have "pcFact w c (threads c ! j)" using assms(1) that by (simp add: coherent_def)
    with r have "built w c" by (cases "threads c ! j") auto
    with assms(2) show False by simp
  qed
  then show ?thesis by (auto simp: howMany_zero in_set_conv_nth)
qed

lemma untouched_upd [simp]:
  "untouched w (c\<lparr>readers := r\<rparr>) l e = untouched w c l e"
  "untouched w (c\<lparr>writer := b\<rparr>) l e = untouched w c l e"
  "untouched w (c\<lparr>threads := t\<rparr>) l e = untouched w c l e"
  by (cases w; simp add: untouched_def)+

lemma stamped_upd [simp]:
  "stamped r0 (c\<lparr>readers := r\<rparr>) now = stamped r0 c now"
  "stamped r0 (c\<lparr>writer := b\<rparr>) now = stamped r0 c now"
  "stamped r0 (c\<lparr>threads := t\<rparr>) now = stamped r0 c now"
  "stamped r0 (c\<lparr>server := s\<rparr>) now = stamped r0 c now"
  "stamped r0 (c\<lparr>files := f\<rparr>) now = stamped r0 c now"
  "stamped r0 (c\<lparr>keyLoads := l\<rparr>) now = stamped r0 c now"
  "stamped r0 (c\<lparr>encodings := e\<rparr>) now = stamped r0 c now"
  by (simp_all add: stamped_def)

lemma built_upd [simp]:
  "built w (c\<lparr>readers := r\<rparr>) = built w c"
  "built w (c\<lparr>writer := b\<rparr>) = built w c"
  "built w (c\<lparr>threads := t\<rparr>) = built w c"
  "built w (c\<lparr>files := f\<rparr>) = built w c"
  by (cases w; simp add: built_def)+

lemma pcFact_upd [simp]:
  "pcFact w (c\<lparr>readers := r\<rparr>) p = pcFact w c p"
  "pcFact w (c\<lparr>writer := b\<rparr>) p = pcFact w c p"
  "pcFact w (c\<lparr>threads := t\<rparr>) p = pcFact w c p"
  by (cases p; cases w; simp)+

lemma facts_update:
  assumes "\<forall>j < length xs. pcFact w c (xs ! j)" and "pcFact w c q"
  shows "\<forall>j < length (xs[i := q]). pcFact w c (xs[i := q] ! j)"
proof (intro allI impI)
  fix j assume "j < length (xs[i := q])"
  with assms show "pcFact w c (xs[i := q] ! j)"
    by (cases "j = i") simp_all
qed

lemma step_AtRLock:
  assumes I: "coherent w c" and i: "i < length (threads c)" and p: "threads c ! i = AtRLock"
    and nw: "\<not> writer c"
  shows "coherent w (c\<lparr>readers := readers c + 1, threads := (threads c)[i := AtCheck]\<rparr>)"
proof -
  note cu = howMany_update [OF i, of _ AtCheck, unfolded p]
  have f: "\<forall>j < length ((threads c)[i := AtCheck]). pcFact w c ((threads c)[i := AtCheck] ! j)"
    using I by (intro facts_update) (simp_all add: coherent_def)
  show ?thesis
    using I cu [of isCheck] cu [of holdsLock] cu [of inRegen] cu [of isReturned] nw f
    by (simp add: coherent_def holdsLock_def)
qed

lemma howMany_le: "(\<And>x. P x \<Longrightarrow> Q x) \<Longrightarrow> howMany P xs \<le> howMany Q xs"
  unfolding howMany_def by (induction xs) auto

lemma regen_le_one: "coherent w c \<Longrightarrow> howMany inRegen (threads c) \<le> 1"
  using howMany_le [of inRegen holdsLock "threads c"] by (auto simp: coherent_def inRegen_holds split: if_splits)

lemma holder_writer:
  "coherent w c \<Longrightarrow> i < length (threads c) \<Longrightarrow> holdsLock (threads c ! i) \<Longrightarrow> writer c \<and> readers c = 0"
  using howMany_nth [of i "threads c" holdsLock] by (auto simp: coherent_def split: if_splits)

lemma recheck_no_regen:
  assumes "coherent w c" "i < length (threads c)" "threads c ! i = AtRecheck"
  shows "howMany inRegen (threads c) = 0"
proof -
  have "\<not> inRegen (threads c ! j)" if "j < length (threads c)" for j
  proof (cases "j = i")
    case True
    with assms(3) show ?thesis by simp
  next
    case False
    have "holdsLock (threads c ! i)" using assms(3) by (simp add: holdsLock_def)
    from holder_alone [OF assms(1,2) this that False] show ?thesis by (auto dest: inRegen_holds)
  qed
  then show ?thesis by (auto simp: howMany_zero in_set_conv_nth)
qed

lemma regen_facts:
  assumes I: "coherent w c" and i: "i < length (threads c)" and r: "inRegen (threads c ! i)"
    and q: "pcFact w c' q"
  shows "\<forall>j < length ((threads c)[i := q]). pcFact w c' ((threads c)[i := q] ! j)"
proof (intro allI impI)
  fix j assume j: "j < length ((threads c)[i := q])"
  show "pcFact w c' ((threads c)[i := q] ! j)"
  proof (cases "j = i")
    case True
    with i q show ?thesis by simp
  next
    case False
    have h: "holdsLock (threads c ! i)" using r by (rule inRegen_holds)
    have "\<not> holdsLock (threads c ! j)" using holder_alone [OF I i h _ False] j by simp
    then have a: "\<not> inRegen (threads c ! j)" by (auto dest: inRegen_holds)
    have "0 < howMany inRegen (threads c)" using i r by (rule howMany_nth)
    then have "howMany isReturned (threads c) = 0" using I by (simp add: coherent_def)
    then have b: "\<not> isReturned (threads c ! j)" using j by (simp add: howMany_zero)
    from a b have "pcFact w c' (threads c ! j)" by (rule pcFact_idle)
    with False show ?thesis by simp
  qed
qed

lemma step_AtCheck_hit:
  assumes I: "coherent w c" and S: "succeeds X w" and i: "i < length (threads c)"
    and p: "threads c ! i = AtCheck" and v: "cacheValid (server c) (clockNow c)"
  shows "coherent w (c\<lparr>readers := readers c - 1,
           threads := (threads c)[i := Returned (Inr (bytesOf (cachedCRL (server c))))]\<rparr>)"
proof -
  let ?q = "Returned (Inr (bytesOf (cachedCRL (server c))))"
  note cu = howMany_update [OF i, of _ ?q, unfolded p]
  have rd: "0 < readers c" using I howMany_nth [OF i, of isCheck] p by (simp add: coherent_def)
  then have nw: "\<not> writer c" using I by (auto simp: coherent_def)
  then have h0: "howMany holdsLock (threads c) = 0" using I by (simp add: coherent_def)
  then have r0: "howMany inRegen (threads c) = 0" by (rule no_holder_no_regen)
  then have "untouched w c 0 0 \<or> built w c" using I by (simp add: coherent_def)
  with untouched_not_valid [OF I S] v have b: "built w c" by blast
  have f: "\<forall>j < length ((threads c)[i := ?q]). pcFact w c ((threads c)[i := ?q] ! j)"
    using I b by (intro facts_update) (simp_all add: coherent_def)
  show ?thesis
    using I cu [of isCheck] cu [of holdsLock] cu [of inRegen] rd nw h0 r0 b f
    by (simp add: coherent_def holdsLock_def)
qed

lemma step_AtCheck_miss:
  assumes I: "coherent w c" and i: "i < length (threads c)" and p: "threads c ! i = AtCheck"
  shows "coherent w (c\<lparr>readers := readers c - 1, threads := (threads c)[i := AtLock]\<rparr>)"
proof -
  note cu = howMany_update [OF i, of _ AtLock, unfolded p]
  have rd: "0 < readers c" using I howMany_nth [OF i, of isCheck] p by (simp add: coherent_def)
  then have nw: "\<not> writer c" using I by (auto simp: coherent_def)
  have f: "\<forall>j < length ((threads c)[i := AtLock]). pcFact w c ((threads c)[i := AtLock] ! j)"
    using I by (intro facts_update) (simp_all add: coherent_def)
  show ?thesis
    using I cu [of isCheck] cu [of holdsLock] cu [of inRegen] cu [of isReturned] rd nw f
    by (simp add: coherent_def holdsLock_def)
qed

lemma step_AtLock:
  assumes I: "coherent w c" and i: "i < length (threads c)" and p: "threads c ! i = AtLock"
    and free: "\<not> writer c" "readers c = 0"
  shows "coherent w (c\<lparr>writer := True, threads := (threads c)[i := AtRecheck]\<rparr>)"
proof -
  note cu = howMany_update [OF i, of _ AtRecheck, unfolded p]
  have f: "\<forall>j < length ((threads c)[i := AtRecheck]). pcFact w c ((threads c)[i := AtRecheck] ! j)"
    using I by (intro facts_update) (simp_all add: coherent_def)
  show ?thesis
    using I cu [of isCheck] cu [of holdsLock] cu [of inRegen] cu [of isReturned] free f
    by (simp add: coherent_def holdsLock_def)
qed

lemma step_AtRecheck_hit:
  assumes I: "coherent w c" and S: "succeeds X w" and i: "i < length (threads c)"
    and p: "threads c ! i = AtRecheck" and v: "cacheValid (server c) (clockNow c)"
  shows "coherent w (c\<lparr>writer := False,
           threads := (threads c)[i := Returned (Inr (bytesOf (cachedCRL (server c))))]\<rparr>)"
proof -
  let ?q = "Returned (Inr (bytesOf (cachedCRL (server c))))"
  note cu = howMany_update [OF i, of _ ?q, unfolded p]
  have hw: "writer c \<and> readers c = 0"
    using holder_writer [OF I i] p by (simp add: holdsLock_def)
  have r0: "howMany inRegen (threads c) = 0" using I i p by (rule recheck_no_regen)
  then have "untouched w c 0 0 \<or> built w c" using I by (simp add: coherent_def)
  with untouched_not_valid [OF I S] v have b: "built w c" by blast
  have f: "\<forall>j < length ((threads c)[i := ?q]). pcFact w c ((threads c)[i := ?q] ! j)"
    using I b by (intro facts_update) (simp_all add: coherent_def)
  show ?thesis
    using I cu [of isCheck] cu [of holdsLock] cu [of inRegen] hw r0 b f
    by (simp add: coherent_def holdsLock_def)
qed

lemma step_AtRecheck_miss:
  assumes I: "coherent w c" and i: "i < length (threads c)"
    and p: "threads c ! i = AtRecheck" and v: "\<not> cacheValid (server c) (clockNow c)"
    and h: "withinHour (fst (snd (snd w))) c"
  shows "coherent w (c\<lparr>threads := (threads c)[i := AtLoadKey]\<rparr>)"
proof -
  note cu = howMany_update [OF i, of _ AtLoadKey, unfolded p]
  have r0: "howMany inRegen (threads c) = 0" using I i p by (rule recheck_no_regen)
  then have "untouched w c 0 0 \<or> built w c" using I by (simp add: coherent_def)
  with built_valid [OF _ h] v have u: "untouched w c 0 0" and nb: "\<not> built w c" by blast+
  have nr: "howMany isReturned (threads c) = 0" using I nb by (rule no_returned_unless_built)
  have hw: "writer c \<and> readers c = 0"
    using holder_writer [OF I i] p by (simp add: holdsLock_def)
  have f: "\<forall>j < length ((threads c)[i := AtLoadKey]). pcFact w c ((threads c)[i := AtLoadKey] ! j)"
    using I u by (intro facts_update) (simp_all add: coherent_def)
  show ?thesis
    using I cu [of isCheck] cu [of holdsLock] cu [of inRegen] cu [of isReturned] r0 nr f hw
    by (auto simp: coherent_def holdsLock_def)
qed

lemma inRegen_kind: "inRegen p \<Longrightarrow> \<not> isCheck p \<and> \<not> isReturned p \<and> holdsLock p"
  by (cases p) (simp_all add: holdsLock_def)

lemma howMany_same:
  assumes "i < length xs" and "P (xs ! i) = P y"
  shows "howMany P (xs[i := y]) = howMany P xs"
  using howMany_update [OF assms(1), of P y] assms(2) by (simp split: if_splits)

lemma step_regen:
  assumes I: "coherent w c" and i: "i < length (threads c)" and r: "inRegen (threads c ! i)"
    and q: "inRegen q" and f: "pcFact w c' q"
    and t: "threads c' = (threads c)[i := q]" and rd: "readers c' = readers c"
    and wr: "writer c' = writer c" and ck: "clockNow c' = clockNow c"
  shows "coherent w c'"
proof -
  note a = inRegen_kind [OF r] and b = inRegen_kind [OF q]
  have c1: "howMany isCheck (threads c') = howMany isCheck (threads c)"
    unfolding t using a b by (intro howMany_same [OF i]) simp
  have c2: "howMany holdsLock (threads c') = howMany holdsLock (threads c)"
    unfolding t using a b by (intro howMany_same [OF i]) simp
  have c3: "howMany inRegen (threads c') = howMany inRegen (threads c)"
    unfolding t using r q by (intro howMany_same [OF i]) simp
  have c4: "howMany isReturned (threads c') = howMany isReturned (threads c)"
    unfolding t using a b by (intro howMany_same [OF i]) simp
  have pos: "0 < howMany inRegen (threads c)" using i r by (rule howMany_nth)
  have fs: "\<forall>j < length (threads c'). pcFact w c' (threads c' ! j)"
    unfolding t using I i r f by (rule regen_facts)
  show ?thesis
    using I pos fs by (auto simp: coherent_def c1 c2 c3 c4 rd wr ck)
qed

lemma step_AtLoadKey:
  assumes I: "coherent w c" and S: "succeeds X w" and i: "i < length (threads c)"
    and p: "threads c ! i = AtLoadKey"
  shows "\<exists>ce k. loadCertAndKey X (files c) (crtFile (server c)) (keyFile (server c)) = Inr (ce, k)
           \<and> coherent w (c\<lparr>keyLoads := keyLoads c + 1, threads := (threads c)[i := AtLoadList ce k]\<rparr>)"
proof -
  obtain s0 fs0 r0 ce0 k0 rcs0 where w: "w = (s0, fs0, r0, ce0, k0, rcs0)" by (cases w) auto
  have "pcFact w c (threads c ! i)" using I i by (simp add: coherent_def)
  then have u: "server c = s0" "files c = fs0" "keyLoads c = 0" "encodings c = 0"
    by (simp_all add: p untouched_def w)
  have l: "loadCertAndKey X (files c) (crtFile (server c)) (keyFile (server c)) = Inr (ce0, k0)"
    using S by (simp add: succeeds_def w u)
  have "coherent w (c\<lparr>keyLoads := keyLoads c + 1, threads := (threads c)[i := AtLoadList ce0 k0]\<rparr>)"
    using I i by (rule step_regen [where q = "AtLoadList ce0 k0"]) (simp_all add: p w u untouched_def)
  with l show ?thesis by blast
qed

lemma step_AtLoadList:
  assumes I: "coherent w c" and S: "succeeds X w" and i: "i < length (threads c)"
    and p: "threads c ! i = AtLoadList ce k"
  shows "\<exists>rcs. snd (loadRevokedCertificates (files c) (server c)) = Inr rcs
           \<and> coherent w (c\<lparr>threads := (threads c)[i := AtNow ce k rcs]\<rparr>)"
proof -
  obtain s0 fs0 r0 ce0 k0 rcs0 where w: "w = (s0, fs0, r0, ce0, k0, rcs0)" by (cases w) auto
  have "pcFact w c (threads c ! i)" using I i by (simp add: coherent_def)
  then have u: "server c = s0" "files c = fs0" "keyLoads c = 1" "encodings c = 0" "ce = ce0" "k = k0"
    by (simp_all add: p untouched_def w)
  have l: "snd (loadRevokedCertificates (files c) (server c)) = Inr rcs0"
    using S by (simp add: succeeds_def w u)
  have "coherent w (c\<lparr>threads := (threads c)[i := AtNow ce k rcs0]\<rparr>)"
    using I i by (rule step_regen [where q = "AtNow ce k rcs0"]) (simp_all add: p w u untouched_def)
  with l show ?thesis by blast
qed

lemma step_AtNow:
  assumes I: "coherent w c" and i: "i < length (threads c)"
    and p: "threads c ! i = AtNow ce k rcs"
  shows "coherent w (c\<lparr>threads := (threads c)[i := AtCreate ce k rcs (time_Now (clockNow c))]\<rparr>)"
proof -
  obtain s0 fs0 r0 ce0 k0 rcs0 where w: "w = (s0, fs0, r0, ce0, k0, rcs0)" by (cases w) auto
  have "pcFact w c (threads c ! i)" using I i by (simp add: coherent_def)
  then have u: "server c = s0" "files c = fs0" "keyLoads c = 1" "encodings c = 0"
      "ce = ce0" "k = k0" "rcs = rcs0"
    by (simp_all add: p untouched_def w)
  have st: "stamped r0 c (time_Now (clockNow c))"
    using I by (auto simp: stamped_def coherent_def w steady_refl)
  show ?thesis
    using I i
    by (rule step_regen [where q = "AtCreate ce k rcs (time_Now (clockNow c))"])
      (simp_all add: p w u untouched_def st)
qed

lemma step_AtCreate:
  assumes I: "coherent w c" and S: "succeeds X w" and i: "i < length (threads c)"
    and p: "threads c ! i = AtCreate ce k rcs now"
  shows "\<exists>b. CreateRevocationList X (crlTemplate now rcs) ce k = Inr b
           \<and> coherent w (c\<lparr>encodings := encodings c + 1, threads := (threads c)[i := AtSetCRL b now]\<rparr>)"
proof -
  obtain s0 fs0 r0 ce0 k0 rcs0 where w: "w = (s0, fs0, r0, ce0, k0, rcs0)" by (cases w) auto
  have "pcFact w c (threads c ! i)" using I i by (simp add: coherent_def)
  then have u: "server c = s0" "files c = fs0" "keyLoads c = 1" "encodings c = 0"
      "ce = ce0" "k = k0" "rcs = rcs0" "stamped r0 c now"
    by (simp_all add: p untouched_def w)
  obtain b where l: "CreateRevocationList X (crlTemplate now rcs) ce k = Inr b"
    using S by (auto simp: succeeds_def w u)
  have "coherent w (c\<lparr>encodings := encodings c + 1, threads := (threads c)[i := AtSetCRL b now]\<rparr>)"
    using I i by (rule step_regen [where q = "AtSetCRL b now"]) (simp_all add: p w u untouched_def)
  with l show ?thesis by blast
qed

lemma step_AtSetCRL:
  assumes I: "coherent w c" and i: "i < length (threads c)"
    and p: "threads c ! i = AtSetCRL b now"
  shows "coherent w (c\<lparr>server := (server c)\<lparr>cachedCRL := Some b\<rparr>,
                   threads := (threads c)[i := AtSetTime b now]\<rparr>)"
proof -
  obtain s0 fs0 r0 ce0 k0 rcs0 where w: "w = (s0, fs0, r0, ce0, k0, rcs0)" by (cases w) auto
  have "pcFact w c (threads c ! i)" using I i by (simp add: coherent_def)
  then have u: "server c = s0" "files c = fs0" "keyLoads c = 1" "encodings c = 1" "stamped r0 c now"
    by (simp_all add: p untouched_def w)
  show ?thesis
    using I i by (rule step_regen [where q = "AtSetTime b now"]) (simp_all add: p w u)
qed

lemma step_AtSetTime:
  assumes I: "coherent w c" and i: "i < length (threads c)"
    and p: "threads c ! i = AtSetTime b now"
  shows "coherent w (c\<lparr>server := (server c)\<lparr>cacheTime := now\<rparr>,
                   threads := (threads c)[i := AtSetNumber b now]\<rparr>)"
proof -
  obtain s0 fs0 r0 ce0 k0 rcs0 where w: "w = (s0, fs0, r0, ce0, k0, rcs0)" by (cases w) auto
  have "pcFact w c (threads c ! i)" using I i by (simp add: coherent_def)
  then have u: "server c = s0\<lparr>cachedCRL := Some b\<rparr>" "files c = fs0" "keyLoads c = 1"
      "encodings c = 1" "stamped r0 c now"
    by (simp_all add: p w)
  show ?thesis
    using I i by (rule step_regen [where q = "AtSetNumber b now"]) (simp_all add: p w u)
qed

lemma step_AtSetNumber:
  assumes I: "coherent w c" and i: "i < length (threads c)"
    and p: "threads c ! i = AtSetNumber b now"
  shows "coherent w (c\<lparr>server := (server c)\<lparr>cacheNumber := Some (Unix now)\<rparr>,
                   threads := (threads c)[i := AtSave b]\<rparr>)"
proof -
  obtain s0 fs0 r0 ce0 k0 rcs0 where w: "w = (s0, fs0, r0, ce0, k0, rcs0)" by (cases w) auto
  have "pcFact w c (threads c ! i)" using I i by (simp add: coherent_def)
  then have u: "server c = s0\<lparr>cachedCRL := Some b, cacheTime := now\<rparr>" "files c = fs0"
      "keyLoads c = 1" "encodings c = 1" "stamped r0 c now"
    by (simp_all add: p w)
  show ?thesis
    using I i by (rule step_regen [where q = "AtSave b"]) (auto simp: p w u installed_def)
qed

lemma step_AtSave:
  assumes I: "coherent w c" and i: "i < length (threads c)" and p: "threads c ! i = AtSave b"
  shows "coherent w (c\<lparr>files := fs', writer := False,
                   threads := (threads c)[i := Returned (Inr b)]\<rparr>)"
proof -
  obtain s0 fs0 r0 ce0 k0 rcs0 where w: "w = (s0, fs0, r0, ce0, k0, rcs0)" by (cases w) auto
  let ?q = "Returned (Inr b)"
  let ?c = "c\<lparr>files := fs', writer := False, threads := (threads c)[i := ?q]\<rparr>"
  note cu = howMany_update [OF i, of _ ?q, unfolded p]
  have "pcFact w c (threads c ! i)" using I i by (simp add: coherent_def)
  then obtain now where u: "server c = installed s0 b now" "stamped r0 c now"
      "keyLoads c = 1" "encodings c = 1"
    by (auto simp: p w)
  have bl: "built w ?c" using u by (auto simp: built_def w)
  have q: "pcFact w ?c ?q" using bl u by (simp add: installed_def bytesOf_def)
  have r: "inRegen (threads c ! i)" by (simp add: p)
  have fs: "\<forall>j < length ((threads c)[i := ?q]). pcFact w ?c ((threads c)[i := ?q] ! j)"
    using I i r q by (rule regen_facts)
  have hw: "writer c \<and> readers c = 0"
    using holder_writer [OF I i] p by (simp add: holdsLock_def)
  have r1: "howMany inRegen (threads c) = 1"
    using regen_le_one [OF I] howMany_nth [OF i, of inRegen] r by simp
  show ?thesis
    using I cu [of isCheck] cu [of holdsLock] cu [of inRegen] hw r1 bl fs
    by (auto simp: coherent_def holdsLock_def)
qed

lemma step_Tick:
  assumes I: "coherent w c" and s: "steady (clockNow c) r"
  shows "coherent w (c\<lparr>clockNow := r\<rparr>)"
proof -
  obtain s0 fs0 r0 ce0 k0 rcs0 where w: "w = (s0, fs0, r0, ce0, k0, rcs0)" by (cases w) auto
  have st: "stamped r0 (c\<lparr>clockNow := r\<rparr>) now" if "stamped r0 c now" for now
    using that s by (auto simp: stamped_def intro: steady_trans)
  have bl: "built w (c\<lparr>clockNow := r\<rparr>)" if "built w c"
    using that st by (auto simp: built_def w)
  have un: "untouched (s0, fs0, r0, ce0, k0, rcs0) (c\<lparr>clockNow := r\<rparr>) l e
      = untouched (s0, fs0, r0, ce0, k0, rcs0) c l e" for l e
    by (simp add: untouched_def)
  have pf: "pcFact w (c\<lparr>clockNow := r\<rparr>) p" if "pcFact w c p" for p
    using that st bl by (cases p) (auto simp: w un)
  show ?thesis
    using I s bl pf by (auto simp: coherent_def w un intro: steady_trans)
qed

lemma exec_Step_clock: "exec X flt (Step i) c = Some c' \<Longrightarrow> clockNow c' = clockNow c"
  by (cases "threads c ! i")
    (auto simp: exec_def split: if_splits sum.splits prod.splits)

lemma coherent_exec:
  assumes I: "coherent w c" and S: "succeeds X w" and e: "exec X flt a c = Some c'"
    and h: "withinHour (fst (snd (snd w))) c'"
    and t: "\<forall>r. a = Tick r \<longrightarrow> steady (clockNow c) r"
  shows "coherent w c'"
proof (cases a)
  case (Tick r)
  with t have "steady (clockNow c) r" by simp
  with I have "coherent w (c\<lparr>clockNow := r\<rparr>)" by (rule step_Tick)
  with e Tick show ?thesis by (simp add: exec_def)
next
  case (Step i)
  with e have i: "i < length (threads c)" by (auto simp: exec_def split: if_splits)
  have hc: "withinHour (fst (snd (snd w))) c"
    using exec_Step_clock [of X flt i c c'] e h Step by (simp add: withinHour_def)
  note e' = e [unfolded Step]
  show ?thesis
  proof (cases "threads c ! i")
    case AtRLock
    with step_AtRLock [OF I i] e' i show ?thesis
      by (auto simp: exec_def split: if_splits)
  next
    case AtCheck
    with step_AtCheck_hit [OF I S i] step_AtCheck_miss [OF I i] e' i show ?thesis
      by (auto simp: exec_def split: if_splits)
  next
    case AtLock
    with step_AtLock [OF I i] e' i show ?thesis
      by (auto simp: exec_def split: if_splits)
  next
    case AtRecheck
    with step_AtRecheck_hit [OF I S i] step_AtRecheck_miss [OF I i] e' i hc show ?thesis
      by (auto simp: exec_def split: if_splits)
  next
    case AtLoadKey
    with step_AtLoadKey [OF I S i] e' i show ?thesis
      by (auto simp: exec_def)
  next
    case (AtLoadList ce k)
    with step_AtLoadList [OF I S i] e' i show ?thesis
      by (auto simp: exec_def split: prod.splits)
  next
    case (AtNow ce k rcs)
    with step_AtNow [OF I i] e' i show ?thesis
      by (auto simp: exec_def)
  next
    case (AtCreate ce k rcs now)
    with step_AtCreate [OF I S i] e' i show ?thesis
      by (auto simp: exec_def)
  next
    case (AtSetCRL b now)
    with step_AtSetCRL [OF I i] e' i show ?thesis
      by (auto simp: exec_def)
  next
    case (AtSetTime b now)
    with step_AtSetTime [OF I i] e' i show ?thesis
      by (auto simp: exec_def)
  next
    case (AtSetNumber b now)
    with step_AtSetNumber [OF I i] e' i show ?thesis
      by (auto simp: exec_def)
  next
    case (AtSave b)
    with step_AtSave [OF I i] e' i show ?thesis
      by (auto simp: exec_def)
  next
    case (Returned res)
    with e' i show ?thesis by (simp add: exec_def)
  qed
qed

lemma exec_clock:
  assumes "exec X flt a c = Some c'" and "\<forall>r. a = Tick r \<longrightarrow> steady (clockNow c) r"
  shows "wall_ns (clockNow c) \<le> wall_ns (clockNow c')"
proof (cases a)
  case (Tick r)
  with assms show ?thesis by (auto simp: exec_def steady_def)
next
  case (Step i)
  with assms(1) exec_Step_clock [of X flt i c c'] show ?thesis by simp
qed

lemma run_append:
  "run X flt c (as @ bs) = (case run X flt c as of None \<Rightarrow> None | Some c' \<Rightarrow> run X flt c' bs)"
  by (induction as arbitrary: c) (auto split: option.splits)

lemma ticks_append: "ticks (as @ bs) = ticks as @ ticks bs"
  by (induction as rule: ticks.induct) simp_all

lemma run_clock: "run X flt c0 sched = Some c \<Longrightarrow> clockNow c = last (clockNow c0 # ticks sched)"
proof (induction sched arbitrary: c0)
  case Nil
  then show ?case by simp
next
  case (Cons a as)
  from Cons.prems obtain c1 where c1: "exec X flt a c0 = Some c1" "run X flt c1 as = Some c"
    by (auto split: option.splits)
  from Cons.IH [OF c1(2)] have l: "clockNow c = last (clockNow c1 # ticks as)" .
  show ?case
  proof (cases a)
    case (Tick r)
    with c1(1) have "clockNow c1 = r" by (auto simp: exec_def)
    with l Tick show ?thesis by simp
  next
    case (Step i)
    with c1(1) have "clockNow c1 = clockNow c0" by (simp add: exec_Step_clock)
    with l Step show ?thesis by simp
  qed
qed

lemma coherent_run:
  assumes S: "succeeds X w"
  shows "coherent w c0 \<Longrightarrow> sorted_wrt steady (clockNow c0 # ticks sched) \<Longrightarrow>
    run X flt c0 sched = Some c \<Longrightarrow> withinHour (fst (snd (snd w))) c \<Longrightarrow> coherent w c"
proof (induction sched arbitrary: c rule: rev_induct)
  case Nil
  then show ?case by simp
next
  case (snoc a as)
  from snoc.prems(3) obtain c1 where c1: "run X flt c0 as = Some c1" "exec X flt a c1 = Some c"
    by (auto simp: run_append split: option.splits)
  have srt: "sorted_wrt steady ((clockNow c0 # ticks as) @ ticks [a])"
    using snoc.prems(2) by (simp add: ticks_append)
  then have pre: "sorted_wrt steady (clockNow c0 # ticks as)"
    unfolding sorted_wrt_append by blast
  have now: "clockNow c1 = last (clockNow c0 # ticks as)" using c1(1) by (rule run_clock)
  have t: "\<forall>r. a = Tick r \<longrightarrow> steady (clockNow c1) r"
  proof (intro allI impI)
    fix r assume "a = Tick r"
    then have "r \<in> set (ticks [a])" by simp
    moreover have "clockNow c1 \<in> set (clockNow c0 # ticks as)"
      unfolding now by (rule last_in_set) simp
    ultimately show "steady (clockNow c1) r"
      using srt unfolding sorted_wrt_append by blast
  qed
  have "wall_ns (clockNow c1) \<le> wall_ns (clockNow c)" using c1(2) t by (rule exec_clock)
  with snoc.prems(4) have "withinHour (fst (snd (snd w))) c1" by (simp add: withinHour_def)
  with snoc.IH [OF snoc.prems(1) pre c1(1)] have "coherent w c1" .
  then show ?case using S c1(2) snoc.prems(4) t by (rule coherent_exec)
qed

lemma coherent_counts:
  assumes I: "coherent w c"
  shows "keyLoads c \<le> 1 \<and> encodings c \<le> 1"
proof (cases "howMany inRegen (threads c) = 0")
  case True
  with I have "untouched w c 0 0 \<or> built w c" by (simp add: coherent_def)
  then show ?thesis by (cases w) (auto simp: untouched_def built_def)
next
  case False
  then obtain i where i: "i < length (threads c)" "inRegen (threads c ! i)"
    by (auto simp: howMany_pos)
  then have "pcFact w c (threads c ! i)" using I by (simp add: coherent_def)
  with i(2) show ?thesis
    by (cases "threads c ! i"; cases w) (auto simp: untouched_def)
qed

lemma coherent_returned:
  assumes I: "coherent w c" and j: "j < length (threads c)" and p: "threads c ! j = Returned res"
  shows "keyLoads c = 1 \<and> encodings c = 1
    \<and> (\<exists>b now. server c = installed (fst w) b now \<and> res = Inr b)"
proof -
  have "pcFact w c (threads c ! j)" using I j by (simp add: coherent_def)
  then show ?thesis
    by (cases w) (auto simp: p built_def installed_def bytesOf_def)
qed

lemma coherent_observed:
  assumes I: "coherent w c" and j: "j < length (threads c)"
    and p: "threads c ! j = AtCheck \<or> threads c ! j = AtRecheck"
  shows "server c = fst w \<or> (\<exists>b now. server c = installed (fst w) b now)"
proof -
  have "howMany inRegen (threads c) = 0"
  proof (cases "threads c ! j = AtRecheck")
    case True
    with I j show ?thesis by (rule recheck_no_regen)
  next
    case False
    with p have "threads c ! j = AtCheck" by simp
    then have "0 < readers c" using I howMany_nth [OF j, of isCheck] by (simp add: coherent_def)
    then have "\<not> writer c" using I by (auto simp: coherent_def)
    then have "howMany holdsLock (threads c) = 0" using I by (simp add: coherent_def)
    then show ?thesis by (rule no_holder_no_regen)
  qed
  then have "untouched w c 0 0 \<or> built w c" using I by (simp add: coherent_def)
  then show ?thesis by (cases w) (auto simp: untouched_def built_def)
qed

lemma exec_length: "exec X flt a c = Some c' \<Longrightarrow> length (threads c') = length (threads c)"
proof (cases a)
  case (Tick r)
  assume "exec X flt a c = Some c'"
  with Tick show ?thesis by (auto simp: exec_def split: if_splits)
next
  case (Step i)
  assume "exec X flt a c = Some c'"
  with Step show ?thesis
    by (cases "threads c ! i") (auto simp: exec_def split: if_splits sum.splits prod.splits)
qed

lemma run_length: "run X flt c0 sched = Some c \<Longrightarrow> length (threads c) = length (threads c0)"
proof (induction sched arbitrary: c0)
  case Nil
  then show ?case by simp
next
  case (Cons a as)
  then show ?case by (auto split: option.splits dest: exec_length)
qed

lemma rank_update:
  assumes "i < length xs" and "rank q < rank (xs ! i)"
  shows "sum_list (map rank (xs[i := q])) < sum_list (map rank xs)"
  using assms
proof (induction xs arbitrary: i)
  case Nil
  then show ?case by simp
next
  case (Cons x xs)
  then show ?case by (cases i) auto
qed

lemma exec_rank:
  assumes "exec X flt (Step i) c = Some c'"
  shows "sum_list (map rank (threads c')) < sum_list (map rank (threads c))"
proof -
  from assms have i: "i < length (threads c)" by (auto simp: exec_def split: if_splits)
  from assms i obtain q where "threads c' = (threads c)[i := q]" "rank q < rank (threads c ! i)"
    by (cases "threads c ! i") (auto simp: exec_def split: if_splits sum.splits prod.splits)
  with i show ?thesis by (simp add: rank_update)
qed

lemma exec_Tick_threads: "exec X flt (Tick r) c = Some c' \<Longrightarrow> threads c' = threads c"
  by (auto simp: exec_def)

lemma run_steps:
  "run X flt c0 sched = Some c \<Longrightarrow>
     sum_list (map rank (threads c)) + howMany isStep sched \<le> sum_list (map rank (threads c0))"
proof (induction sched arbitrary: c0)
  case Nil
  then show ?case by (simp add: howMany_def)
next
  case (Cons a as)
  from Cons.prems obtain c1 where c1: "exec X flt a c0 = Some c1" "run X flt c1 as = Some c"
    by (auto split: option.splits)
  note IH = Cons.IH [OF c1(2)]
  show ?case
  proof (cases a)
    case (Tick r)
    with c1(1) have "threads c1 = threads c0" by (simp add: exec_Tick_threads)
    with IH Tick show ?thesis by (simp add: howMany_def)
  next
    case (Step i)
    with c1(1) have "sum_list (map rank (threads c1)) < sum_list (map rank (threads c0))"
      by (simp add: exec_rank)
    with IH Step show ?thesis by (simp add: howMany_def)
  qed
qed

lemma rank_start: "sum_list (map rank (threads (start s fs r n))) = 12 * n"
  by (simp add: start_def sum_list_replicate)

lemma holder_steps:
  assumes "i < length (threads c)" and "holdsLock (threads c ! i)"
  shows "exec X flt (Step i) c \<noteq> None"
  using assms
  by (cases "threads c ! i") (auto simp: exec_def holdsLock_def split: sum.splits prod.splits)

lemma some_step:
  assumes I: "coherent w c" and j: "j < length (threads c)" and nr: "\<not> isReturned (threads c ! j)"
  shows "\<exists>i < length (threads c). exec X flt (Step i) c \<noteq> None"
proof (cases "writer c")
  case True
  with I have "0 < howMany holdsLock (threads c)" by (simp add: coherent_def)
  then obtain i where "i < length (threads c)" "holdsLock (threads c ! i)"
    by (auto simp: howMany_pos)
  then show ?thesis using holder_steps by blast
next
  case False
  with I have h0: "howMany holdsLock (threads c) = 0" by (simp add: coherent_def)
  show ?thesis
  proof (cases "\<exists>i < length (threads c). threads c ! i = AtRLock \<or> threads c ! i = AtCheck")
    case True
    then obtain i where i: "i < length (threads c)"
      "threads c ! i = AtRLock \<or> threads c ! i = AtCheck" by blast
    then have "exec X flt (Step i) c \<noteq> None"
      using False by (auto simp: exec_def)
    with i(1) show ?thesis by blast
  next
    case none: False
    have "\<not> holdsLock (threads c ! j)" using h0 j by (simp add: howMany_zero)
    with nr none j have l: "threads c ! j = AtLock"
      by (cases "threads c ! j") (auto simp: holdsLock_def)
    have "howMany isCheck (threads c) = 0"
    proof -
      have "\<not> isCheck x" if "x \<in> set (threads c)" for x
      proof
        assume "isCheck x"
        then have "x = AtCheck" by (cases x) auto
        with that none show False by (auto simp: in_set_conv_nth)
      qed
      then show ?thesis by (simp add: howMany_zero)
    qed
    with I have "readers c = 0" by (simp add: coherent_def)
    with l False j have "exec X flt (Step j) c \<noteq> None" by (simp add: exec_def)
    with j show ?thesis by blast
  qed
qed

lemma all_returned: "sum_list (map rank xs) = 0 \<longleftrightarrow> (\<forall>j < length xs. isReturned (xs ! j))"
proof -
  have "rank p = 0 \<longleftrightarrow> isReturned p" for p by (cases p) auto
  then show ?thesis by (auto simp: in_set_conv_nth all_set_conv_all_nth)
qed

lemma completes:
  assumes S: "succeeds X w"
  shows "coherent w c \<Longrightarrow> withinHour (fst (snd (snd w))) c \<Longrightarrow>
    \<exists>sched c'. ticks sched = [] \<and> run X flt c sched = Some c' \<and> coherent w c'
      \<and> (\<forall>j < length (threads c'). isReturned (threads c' ! j))"
proof (induction "sum_list (map rank (threads c))" arbitrary: c rule: less_induct)
  case less
  show ?case
  proof (cases "\<forall>j < length (threads c). isReturned (threads c ! j)")
    case True
    have "ticks [] = [] \<and> run X flt c [] = Some c \<and> coherent w c
        \<and> (\<forall>j < length (threads c). isReturned (threads c ! j))"
      using True less.prems(1) by simp
    then show ?thesis by blast
  next
    case False
    then obtain j where "j < length (threads c)" "\<not> isReturned (threads c ! j)" by blast
    with some_step [OF less.prems(1), of j X flt]
    obtain i c1 where i: "i < length (threads c)" and e: "exec X flt (Step i) c = Some c1"
      by auto
    have ck: "clockNow c1 = clockNow c" using e by (rule exec_Step_clock)
    then have h1: "withinHour (fst (snd (snd w))) c1"
      using less.prems(2) by (simp add: withinHour_def)
    have I1: "coherent w c1"
      using less.prems(1) S e h1 by (rule coherent_exec) simp
    have "sum_list (map rank (threads c1)) < sum_list (map rank (threads c))"
      using e by (rule exec_rank)
    from less.hyps [OF this I1 h1]
    obtain sched c' where s: "ticks sched = []" "run X flt c1 sched = Some c'" "coherent w c'"
      "\<forall>j < length (threads c'). isReturned (threads c' ! j)"
      by blast
    have "ticks (Step i # sched) = [] \<and> run X flt c (Step i # sched) = Some c' \<and> coherent w c'
        \<and> (\<forall>j < length (threads c'). isReturned (threads c' ! j))"
      using s e by simp
    then show ?thesis by blast
  qed
qed

lemma regen_blocks:
  assumes I: "coherent w c" and i: "i < length (threads c)" and r: "inRegen (threads c ! i)"
    and j: "j < length (threads c)" and p: "threads c ! j = AtRLock \<or> threads c ! j = AtLock"
  shows "exec X flt (Step j) c = None"
proof -
  have "writer c" using holder_writer [OF I i] r by (simp add: inRegen_holds)
  with j p show ?thesis by (auto simp: exec_def)
qed

lemma installed_cachedCRL: "cachedCRL (installed s b now) = Some b"
  by (simp add: installed_def)

text \<open>
  One request alone, scheduled with the clock readings of \<open>demoClock 0\<close>, returns what
  \<open>getCRL\<close> returns and leaves the server and the files as \<open>getCRL\<close> leaves them.
\<close>

lemma single_request_is_getCRL:
  "map_option (\<lambda>c. (threads c, server c, files c))
     (run demoX509 noFault (start demoServer demoFS (demoReading 0) 1)
        [Step 0, Step 0, Tick (demoReading 10), Step 0, Step 0, Step 0, Step 0,
         Tick (demoReading 20), Step 0, Step 0, Step 0, Step 0, Step 0, Step 0])
   = (case getCRL demoX509 noFault (demoClock 0) demoFS demoServer of
        (res, s, fs, lg) \<Rightarrow> Some ([Returned res], s, fs))"
  by code_simp

text \<open>
  C1. The specification says that for any number N of concurrent requests that arrive
  while the cache is stale, the credential loader and the encoder are called exactly once,
  that only the request that wins the write lock and still finds the cache stale rebuilds,
  that the others wait and then find the new artifact, so that all N return the same bytes
  and number, and that no request sees a half-built artifact.

  This holds when the regeneration succeeds, the clock is not set back and the requests
  are served within the hour. Let the cache be stale at the start, let the credentials and
  the registry load from the files and let the encoder accept them. Take N requests and
  any schedule of their steps and of the passing of time, with any faults of the disk,
  in which the clock is steady and which ends less than an hour of wall time after the
  start. Then in the configuration reached: there are N requests; at most one of them is
  regenerating; the loader has been called at most once and the encoder at most once; if
  a request has returned, the loader and the encoder have each been called exactly once,
  the server holds one artifact (bytes, generation time, and the Unix second of that time
  as number) and the request returned the bytes of that artifact; and a request that is
  about to check the cache, under the read lock or under the write lock, finds the server
  either as it was at the start or holding a whole artifact. While a request regenerates,
  every request that is about to take a lock waits. Some request can take a step as long
  as one has not returned, and the schedule has at most 12 N steps, so the requests return
  whenever they go on being scheduled: some continuation of the schedule, in which no time
  passes, ends with the loader and the encoder called exactly once, one artifact in the
  server and every one of the N requests returned with the bytes of that artifact. Every
  configuration on the way is reached by a shorter schedule, so this holds throughout.
\<close>

theorem C1_single_flight:
  assumes S: "succeeds X (s0, fs0, r0, ce0, k0, rcs0)"
    and K: "sorted_wrt steady (r0 # ticks sched)"
    and R: "run X flt (start s0 fs0 r0 N) sched = Some c"
    and H: "withinHour r0 c"
  shows "length (threads c) = N \<and> howMany inRegen (threads c) \<le> 1
    \<and> keyLoads c \<le> 1 \<and> encodings c \<le> 1
    \<and> (\<forall>j < N. \<forall>res. threads c ! j = Returned res \<longrightarrow>
          keyLoads c = 1 \<and> encodings c = 1
          \<and> (\<exists>b now. server c = installed s0 b now \<and> res = Inr b))
    \<and> (\<forall>j < N. threads c ! j = AtCheck \<or> threads c ! j = AtRecheck \<longrightarrow>
          server c = s0 \<or> (\<exists>b now. server c = installed s0 b now))
    \<and> (\<forall>i < N. inRegen (threads c ! i) \<longrightarrow>
          (\<forall>j < N. threads c ! j = AtRLock \<or> threads c ! j = AtLock \<longrightarrow>
             exec X flt (Step j) c = None))
    \<and> ((\<exists>j < N. \<not> isReturned (threads c ! j)) \<longrightarrow> (\<exists>i < N. exec X flt (Step i) c \<noteq> None))
    \<and> howMany isStep sched \<le> 12 * N
    \<and> (\<exists>sched' c' b now.
          ticks sched' = [] \<and> run X flt c sched' = Some c'
          \<and> (0 < N \<longrightarrow> server c' = installed s0 b now \<and> keyLoads c' = 1 \<and> encodings c' = 1)
          \<and> (\<forall>j < N. threads c' ! j = Returned (Inr b)))"
proof -
  let ?w = "(s0, fs0, r0, ce0, k0, rcs0)"
  have K': "sorted_wrt steady (clockNow (start s0 fs0 r0 N) # ticks sched)"
    using K by (simp add: start_def)
  have I: "coherent ?w c"
    using S coherent_start K' R by (rule coherent_run) (simp add: H)
  have n: "length (threads c) = N" using run_length [OF R] by (simp add: start_def)
  have g: "howMany inRegen (threads c) \<le> 1" using I by (rule regen_le_one)
  have a: "keyLoads c \<le> 1 \<and> encodings c \<le> 1" using I by (rule coherent_counts)
  have b: "keyLoads c = 1 \<and> encodings c = 1
      \<and> (\<exists>b now. server c = installed s0 b now \<and> res = Inr b)"
    if "j < N" "threads c ! j = Returned res" for j res
    using coherent_returned [OF I, of j res] that n by simp
  have d: "server c = s0 \<or> (\<exists>b now. server c = installed s0 b now)"
    if "j < N" "threads c ! j = AtCheck \<or> threads c ! j = AtRecheck" for j
    using coherent_observed [OF I, of j] that n by simp
  have e: "exec X flt (Step j) c = None"
    if "i < N" "inRegen (threads c ! i)" "j < N" "threads c ! j = AtRLock \<or> threads c ! j = AtLock"
    for i j
    using regen_blocks [OF I, of i j X flt] that n by simp
  have f: "\<exists>i < N. exec X flt (Step i) c \<noteq> None" if "\<exists>j < N. \<not> isReturned (threads c ! j)"
    using some_step [OF I, of _ X flt] that n by auto
  have st: "howMany isStep sched \<le> 12 * N"
    using run_steps [OF R] by (simp add: rank_start)
  from completes [OF S, of c flt] I H
  obtain sched' c' where s': "ticks sched' = []" "run X flt c sched' = Some c'" "coherent ?w c'"
    "\<forall>j < length (threads c'). isReturned (threads c' ! j)"
    by auto
  have n': "length (threads c') = N" using run_length [OF s'(2)] n by simp
  have each: "keyLoads c' = 1 \<and> encodings c' = 1
      \<and> (\<exists>b now. server c' = installed s0 b now \<and> threads c' ! j = Returned (Inr b))"
    if "j < N" for j
  proof -
    from that s'(4) n' obtain res where "threads c' ! j = Returned res"
      by (cases "threads c' ! j") auto
    with coherent_returned [OF s'(3), of j res] that n' show ?thesis by auto
  qed
  have h: "\<exists>b now.
          (0 < N \<longrightarrow> server c' = installed s0 b now \<and> keyLoads c' = 1 \<and> encodings c' = 1)
          \<and> (\<forall>j < N. threads c' ! j = Returned (Inr b))"
  proof (cases "0 < N")
    case False
    then show ?thesis by simp
  next
    case True
    from each [OF True] obtain b now where
      bn: "server c' = installed s0 b now" "keyLoads c' = 1" "encodings c' = 1"
      by blast
    have "threads c' ! j = Returned (Inr b)" if "j < N" for j
    proof -
      from each [OF that] obtain b' now' where
        "server c' = installed s0 b' now'" "threads c' ! j = Returned (Inr b')"
        by blast
      moreover from this(1) bn(1) have "b' = b"
        using installed_cachedCRL [of s0 b' now'] installed_cachedCRL [of s0 b now] by simp
      ultimately show ?thesis by simp
    qed
    with bn show ?thesis by blast
  qed
  from h s'(1,2) have last: "\<exists>sched' c' b now.
          ticks sched' = [] \<and> run X flt c sched' = Some c'
          \<and> (0 < N \<longrightarrow> server c' = installed s0 b now \<and> keyLoads c' = 1 \<and> encodings c' = 1)
          \<and> (\<forall>j < N. threads c' ! j = Returned (Inr b))"
    by blast
  show ?thesis
    using n g a b d e f st last by blast
qed

text \<open>
  The specification says so for every regeneration. When the regeneration fails, nothing is
  installed, and each request in turn takes the write lock, finds the cache still stale
  and calls the loader again: with the key file missing, two concurrent requests call the
  loader twice and both return the error.
\<close>

theorem C1_counterexample:
  "cachedCRL demoServer = None
   \<and> map_option keyLoads
       (run demoX509 noFault (start demoServer demoFS_noKey (demoReading 0) 2) demoSchedule_noKey)
     = Some 2
   \<and> map_option threads
       (run demoX509 noFault (start demoServer demoFS_noKey (demoReading 0) 2) demoSchedule_noKey)
     = Some [Returned (Inl ''loading certificate and key: reading key file: open tls/tls.key: no such file or directory''),
             Returned (Inl ''loading certificate and key: reading key file: open tls/tls.key: no such file or directory'')]"
proof -
  have "cachedCRL demoServer = None" by (simp add: demoServer_def)
  moreover have "map_option keyLoads
       (run demoX509 noFault (start demoServer demoFS_noKey (demoReading 0) 2) demoSchedule_noKey)
     = Some 2" by code_simp
  moreover have "map_option threads
       (run demoX509 noFault (start demoServer demoFS_noKey (demoReading 0) 2) demoSchedule_noKey)
     = Some [Returned (Inl ''loading certificate and key: reading key file: open tls/tls.key: no such file or directory''),
             Returned (Inl ''loading certificate and key: reading key file: open tls/tls.key: no such file or directory'')]"
    by code_simp
  ultimately show ?thesis by blast
qed

theorem C1_witness:
  "succeeds demoX509
     (demoServer, demoFS, demoReading 0, Certificate ''CERT'', RSAPrivateKey ''RSA KEY'', demoRevoked)
   \<and> (\<exists>c. run demoX509 noFault (start demoServer demoFS (demoReading 0) 2) demoSchedule = Some c
        \<and> withinHour (demoReading 0) c
        \<and> threads c = [Returned (Inr ''CRL 1700000000''), Returned (Inr ''CRL 1700000000'')]
        \<and> keyLoads c = 1 \<and> encodings c = 1
        \<and> cachedCRL (server c) = Some ''CRL 1700000000'')
   \<and> (\<exists>c. run demoX509 noFault (start demoServer demoFS (demoReading 0) 2) (butlast demoSchedule)
          = Some c
        \<and> withinHour (demoReading 0) c
        \<and> threads c = [AtRecheck, Returned (Inr ''CRL 1700000000'')]
        \<and> (server c = demoServer \<or> (\<exists>b now. server c = installed demoServer b now)))
   \<and> (\<exists>c. run demoX509 noFault (start demoServer demoFS (demoReading 0) 2) (take 8 demoSchedule)
          = Some c
        \<and> threads c = [AtLock, AtLoadList (Certificate ''CERT'') (RSAPrivateKey ''RSA KEY'')]
        \<and> exec demoX509 noFault (Step 0) c = None
        \<and> (\<exists>i < 2. exec demoX509 noFault (Step i) c \<noteq> None))"
proof -
  let ?w = "(demoServer, demoFS, demoReading 0, Certificate ''CERT'', RSAPrivateKey ''RSA KEY'',
    demoRevoked)"
  have l1: "loadCertAndKey demoX509 demoFS (crtFile demoServer) (keyFile demoServer)
      = Inr (Certificate ''CERT'', RSAPrivateKey ''RSA KEY'')"
    by code_simp
  have l2: "snd (loadRevokedCertificates demoFS demoServer) = Inr demoRevoked"
    by code_simp
  have l3: "\<exists>b. CreateRevocationList demoX509 (crlTemplate now demoRevoked)
      (Certificate ''CERT'') (RSAPrivateKey ''RSA KEY'') = Inr b" for now
    by (simp add: demoX509_def)
  have S: "succeeds demoX509 ?w"
    using demo_stale l1 l2 l3 by (simp add: succeeds_def)
  have hour: "withinHour (demoReading 0) c" if "clockNow c = demoReading (60 * Second)" for c
    using that by (simp add: withinHour_def demoReading_def cacheDuration_def Hour_def Second_def)
  have t: "map_option threads
      (run demoX509 noFault (start demoServer demoFS (demoReading 0) 2) demoSchedule)
      = Some [Returned (Inr ''CRL 1700000000''), Returned (Inr ''CRL 1700000000'')]"
    by code_simp
  have k: "map_option clockNow
      (run demoX509 noFault (start demoServer demoFS (demoReading 0) 2) demoSchedule)
      = Some (demoReading (60 * Second))"
    by code_simp
  from t obtain c where
    R: "run demoX509 noFault (start demoServer demoFS (demoReading 0) 2) demoSchedule = Some c"
    and tc: "threads c = [Returned (Inr ''CRL 1700000000''), Returned (Inr ''CRL 1700000000'')]"
    by auto
  from k R have H: "withinHour (demoReading 0) c" by (intro hour) simp
  have K: "sorted_wrt steady (demoReading 0 # ticks demoSchedule)" by code_simp
  note T = C1_single_flight [OF S K R H]
  note ret = T [THEN conjunct2, THEN conjunct2, THEN conjunct2, THEN conjunct2, THEN conjunct1,
      rule_format, of 0 "Inr ''CRL 1700000000''"]
  from ret tc have "keyLoads c = 1 \<and> encodings c = 1
      \<and> (\<exists>b now. server c = installed demoServer b now
            \<and> Inr ''CRL 1700000000'' = (Inr b :: error + string))"
    by simp
  then have "keyLoads c = 1 \<and> encodings c = 1 \<and> cachedCRL (server c) = Some ''CRL 1700000000''"
    by (auto simp: installed_def)
  with R H tc have first:
    "\<exists>c. run demoX509 noFault (start demoServer demoFS (demoReading 0) 2) demoSchedule = Some c
        \<and> withinHour (demoReading 0) c
        \<and> threads c = [Returned (Inr ''CRL 1700000000''), Returned (Inr ''CRL 1700000000'')]
        \<and> keyLoads c = 1 \<and> encodings c = 1
        \<and> cachedCRL (server c) = Some ''CRL 1700000000''"
    by blast
  have t': "map_option threads
      (run demoX509 noFault (start demoServer demoFS (demoReading 0) 2) (butlast demoSchedule))
      = Some [AtRecheck, Returned (Inr ''CRL 1700000000'')]"
    by code_simp
  have k': "map_option clockNow
      (run demoX509 noFault (start demoServer demoFS (demoReading 0) 2) (butlast demoSchedule))
      = Some (demoReading (60 * Second))"
    by code_simp
  from t' obtain c' where
    R': "run demoX509 noFault (start demoServer demoFS (demoReading 0) 2) (butlast demoSchedule)
      = Some c'"
    and tc': "threads c' = [AtRecheck, Returned (Inr ''CRL 1700000000'')]"
    by auto
  from k' R' have H': "withinHour (demoReading 0) c'" by (intro hour) simp
  have K': "sorted_wrt steady (demoReading 0 # ticks (butlast demoSchedule))" by code_simp
  note T' = C1_single_flight [OF S K' R' H']
  note obs = T' [THEN conjunct2, THEN conjunct2, THEN conjunct2, THEN conjunct2, THEN conjunct2,
      THEN conjunct1, rule_format, of 0]
  from obs tc' have "server c' = demoServer \<or> (\<exists>b now. server c' = installed demoServer b now)"
    by simp
  with R' H' tc' have second:
    "\<exists>c. run demoX509 noFault (start demoServer demoFS (demoReading 0) 2) (butlast demoSchedule)
          = Some c
        \<and> withinHour (demoReading 0) c
        \<and> threads c = [AtRecheck, Returned (Inr ''CRL 1700000000'')]
        \<and> (server c = demoServer \<or> (\<exists>b now. server c = installed demoServer b now))"
    by blast
  have t'': "map_option threads
      (run demoX509 noFault (start demoServer demoFS (demoReading 0) 2) (take 8 demoSchedule))
      = Some [AtLock, AtLoadList (Certificate ''CERT'') (RSAPrivateKey ''RSA KEY'')]"
    by code_simp
  have k'': "map_option clockNow
      (run demoX509 noFault (start demoServer demoFS (demoReading 0) 2) (take 8 demoSchedule))
      = Some (demoReading 5)"
    by code_simp
  from t'' obtain c'' where
    R'': "run demoX509 noFault (start demoServer demoFS (demoReading 0) 2) (take 8 demoSchedule)
      = Some c''"
    and tc'': "threads c'' = [AtLock, AtLoadList (Certificate ''CERT'') (RSAPrivateKey ''RSA KEY'')]"
    by auto
  from k'' R'' have "clockNow c'' = demoReading 5" by simp
  then have H'': "withinHour (demoReading 0) c''"
    by (simp add: withinHour_def demoReading_def cacheDuration_def Hour_def Second_def)
  have K'': "sorted_wrt steady (demoReading 0 # ticks (take 8 demoSchedule))" by code_simp
  note T'' = C1_single_flight [OF S K'' R'' H'']
  note blocks = T'' [THEN conjunct2, THEN conjunct2, THEN conjunct2, THEN conjunct2, THEN conjunct2,
      THEN conjunct2, THEN conjunct1, rule_format, of 1 0]
  note moves = T'' [THEN conjunct2, THEN conjunct2, THEN conjunct2, THEN conjunct2, THEN conjunct2,
      THEN conjunct2, THEN conjunct2, THEN conjunct1, rule_format]
  from blocks tc'' have b0: "exec demoX509 noFault (Step 0) c'' = None" by simp
  have "(0::nat) < 2 \<and> \<not> isReturned (threads c'' ! 0)" using tc'' by simp
  then have "\<exists>j < 2. \<not> isReturned (threads c'' ! j)" by blast
  then have "\<exists>i < 2. exec demoX509 noFault (Step i) c'' \<noteq> None" by (rule moves)
  with R'' tc'' b0 have third:
    "\<exists>c. run demoX509 noFault (start demoServer demoFS (demoReading 0) 2) (take 8 demoSchedule)
          = Some c
        \<and> threads c = [AtLock, AtLoadList (Certificate ''CERT'') (RSAPrivateKey ''RSA KEY'')]
        \<and> exec demoX509 noFault (Step 0) c = None
        \<and> (\<exists>i < 2. exec demoX509 noFault (Step i) c \<noteq> None)"
    by blast
  from S first second third show ?thesis by blast
qed

end
